theory Spec2Isabelle
  imports Main "HOL-Library.Word" "HOL-Library.AList" "HOL-Library.Sublist"
begin

section \<open>Strings of the source language\<close>

text \<open>
  A JavaScript string is a sequence of 16-bit code units. String literals of the
  source are ASCII; \<open>js\<close> turns an ASCII literal into its code units.
\<close>

type_synonym jschar = "16 word"
type_synonym jsstring = "jschar list"

definition js :: "string \<Rightarrow> jsstring" where
  "js s = map (\<lambda>c. of_nat (of_char c)) s"

definition QUOTE :: jschar where "QUOTE = 0x22"
definition COMMA :: jschar where "COMMA = 0x2C"
definition LF :: jschar where "LF = 0x0A"
definition CR :: jschar where "CR = 0x0D"

text \<open>
  \<open>String.prototype.trim\<close> removes WhiteSpace and LineTerminator code points from both
  ends (ECMA-262): TAB, VT, FF, SP, NBSP, ZWNBSP, the Unicode space separators, LF, CR,
  LS and PS. All of them are single code units.
\<close>

definition isWhiteSpace :: "jschar \<Rightarrow> bool" where
  "isWhiteSpace c \<longleftrightarrow>
     c = 0x09 \<or> c = 0x0A \<or> c = 0x0B \<or> c = 0x0C \<or> c = 0x0D \<or> c = 0x20 \<or> c = 0xA0 \<or>
     c = 0x1680 \<or> (0x2000 \<le> c \<and> c \<le> 0x200A) \<or> c = 0x2028 \<or> c = 0x2029 \<or>
     c = 0x202F \<or> c = 0x205F \<or> c = 0x3000 \<or> c = 0xFEFF"

definition trim :: "jsstring \<Rightarrow> jsstring" where
  "trim s = rev (dropWhile isWhiteSpace (rev (dropWhile isWhiteSpace s)))"

definition startsWith :: "jsstring \<Rightarrow> jschar \<Rightarrow> bool" where
  "startsWith s c \<longleftrightarrow> (case s of [] \<Rightarrow> False | x # _ \<Rightarrow> x = c)"

definition endsWith :: "jsstring \<Rightarrow> jschar \<Rightarrow> bool" where
  "endsWith s c \<longleftrightarrow> (case rev s of [] \<Rightarrow> False | x # _ \<Rightarrow> x = c)"

text \<open>
  \<open>value.slice(1, -1)\<close>: from index 1 up to, not including, the last index; empty when
  the string has fewer than three code units.
\<close>

definition slice_1_m1 :: "jsstring \<Rightarrow> jsstring" where
  "slice_1_m1 s = butlast (tl s)"

text \<open>An exception value is an \<open>Error\<close> with its message.\<close>

datatype js_error = Error (message: jsstring)

section \<open>The CSV parser\<close>

text \<open>\<open>cleanValue\<close>: trim, then remove surrounding quotes if present.\<close>

definition cleanValue :: "jsstring \<Rightarrow> jsstring" where
  "cleanValue v =
     (let t = trim v in
      if startsWith t QUOTE \<and> endsWith t QUOTE then slice_1_m1 t else t)"

text \<open>
  \<open>parseRow\<close>: the \<open>while (i < row.length)\<close> loop, as a recursion over the code units
  from index \<open>i\<close> on. \<open>nextChar\<close> is the head of the rest (\<open>undefined\<close> at the end,
  which is not a quote). The loop state is \<open>values\<close>, \<open>current\<close> and \<open>inQuotes\<close>.
\<close>

fun parseRow_loop :: "jsstring \<Rightarrow> jsstring list \<Rightarrow> jsstring \<Rightarrow> bool \<Rightarrow> jsstring list" where
  "parseRow_loop [] values current inQuotes = values @ [cleanValue current]"
| "parseRow_loop (c # rest) values current inQuotes =
     (if c = QUOTE then
        (if inQuotes \<and> startsWith rest QUOTE
         then parseRow_loop (tl rest) values (current @ [QUOTE]) inQuotes
         else parseRow_loop rest values current (\<not> inQuotes))
      else if c = COMMA \<and> \<not> inQuotes
        then parseRow_loop rest (values @ [cleanValue current]) [] inQuotes
      else parseRow_loop rest values (current @ [c]) inQuotes)"

definition parseRow :: "jsstring \<Rightarrow> jsstring list" where
  "parseRow row = parseRow_loop row [] [] False"

text \<open>
  The row splitter: the \<open>for\<close> loop of \<open>parseCSV\<close> over the whole text, with the loop
  state \<open>rows\<close>, \<open>currentRow\<close> and \<open>inQuotes\<close>; after the loop the last row is pushed
  when it is not blank.
\<close>

definition pushRow :: "jsstring list \<Rightarrow> jsstring \<Rightarrow> jsstring list" where
  "pushRow rows currentRow = (if trim currentRow \<noteq> [] then rows @ [currentRow] else rows)"

fun splitRows_loop :: "jsstring \<Rightarrow> jsstring list \<Rightarrow> jsstring \<Rightarrow> bool \<Rightarrow> jsstring list" where
  "splitRows_loop [] rows currentRow inQuotes = pushRow rows currentRow"
| "splitRows_loop (c # rest) rows currentRow inQuotes =
     (if c = QUOTE then
        (if inQuotes \<and> startsWith rest QUOTE
         then splitRows_loop (tl rest) rows (currentRow @ [QUOTE, QUOTE]) inQuotes
         else splitRows_loop rest rows (currentRow @ [c]) (\<not> inQuotes))
      else if (c = LF \<or> c = CR) \<and> \<not> inQuotes then
        (if c = CR \<and> startsWith rest LF
         then splitRows_loop (tl rest) (pushRow rows currentRow) [] inQuotes
         else splitRows_loop rest (pushRow rows currentRow) [] inQuotes)
      else splitRows_loop rest rows (currentRow @ [c]) inQuotes)"

definition splitRows :: "jsstring \<Rightarrow> jsstring list" where
  "splitRows csv = splitRows_loop csv [] [] False"

text \<open>
  A parsed row is a plain object with string keys and string values: an association
  list in insertion order with unique keys. \<open>obj[h] = v\<close> overwrites in place; on a
  plain object the key \<open>__proto__\<close> is the inherited accessor, whose setter ignores a
  string, so \<open>obj['__proto__'] = v\<close> stores nothing. The order of the keys is not
  observed by the code modelled here.
\<close>

type_synonym record_obj = "(jsstring \<times> jsstring) list"

definition assign :: "record_obj \<Rightarrow> jsstring \<Rightarrow> jsstring \<Rightarrow> record_obj" where
  "assign obj h v = (if h = js ''__proto__'' then obj else AList.update h v obj)"

text \<open>\<open>values[i] || ''\<close>: the empty string when the index is out of range.\<close>

definition valueAt :: "jsstring list \<Rightarrow> nat \<Rightarrow> jsstring" where
  "valueAt values i = (if i < length values then values ! i else [])"

text \<open>\<open>headers.forEach((h, i) => { obj[h] = values[i] || ''; })\<close>, from index \<open>i\<close> on.\<close>

fun forEachHeader :: "jsstring list \<Rightarrow> nat \<Rightarrow> jsstring list \<Rightarrow> record_obj \<Rightarrow> record_obj" where
  "forEachHeader [] i values obj = obj"
| "forEachHeader (h # hs) i values obj =
     forEachHeader hs (Suc i) values (assign obj h (valueAt values i))"

definition buildRecord :: "jsstring list \<Rightarrow> jsstring \<Rightarrow> record_obj" where
  "buildRecord headers row = forEachHeader headers 0 (parseRow row) []"

text \<open>\<open>Object.values(obj).some(v => v.trim())\<close>.\<close>

definition someNonBlank :: "record_obj \<Rightarrow> bool" where
  "someNonBlank obj = list_ex (\<lambda>v. trim v \<noteq> []) (map snd obj)"

text \<open>
  The argument of \<open>parseCSV\<close> is any JavaScript value; only whether it is a string
  matters. \<open>toLowerCase\<close> is the language's Unicode case mapping, a parameter here.
\<close>

datatype js_value = Str jsstring | NonString

text \<open>
  The \<open>try\<close> block of \<open>parseCSV\<close>: it returns the records (\<open>Inr\<close>) or throws (\<open>Inl\<close>).
  The block calls only string and array operations of the library, none of which
  throws on a string.
\<close>

definition parseCSV_block :: "(jsstring \<Rightarrow> jsstring) \<Rightarrow> jsstring \<Rightarrow> js_error + record_obj list" where
  "parseCSV_block toLowerCase text =
     (let rows = splitRows text in
      if length rows < 2 then Inr []
      else
        (let headers = map toLowerCase (parseRow (hd rows)) in
         Inr (filter someNonBlank (map (buildRecord headers) (tl rows)))))"

text \<open>
  The guard of \<open>parseCSV\<close> and its \<open>try\<close>/\<open>catch\<close> around a block: the \<open>catch\<close> branch
  returns the empty list for whatever the block throws.
\<close>

definition parseCSV_catch :: "(jsstring \<Rightarrow> js_error + record_obj list) \<Rightarrow> js_value \<Rightarrow> record_obj list" where
  "parseCSV_catch block csv =
     (case csv of
        NonString \<Rightarrow> []
      | Str text \<Rightarrow>
          if text = [] then []
          else (case block text of Inl e \<Rightarrow> [] | Inr records \<Rightarrow> records))"

definition parseCSV :: "(jsstring \<Rightarrow> jsstring) \<Rightarrow> js_value \<Rightarrow> record_obj list" where
  "parseCSV toLowerCase csv = parseCSV_catch (parseCSV_block toLowerCase) csv"

section \<open>The cache\<close>

text \<open>
  \<open>localStorage\<close> maps keys to strings. The strings under the keys of this cache are
  read with \<open>JSON.parse\<close> and destructured into \<open>data\<close> and \<open>timestamp\<close>; a stored
  string is represented by what that yields: the entry that \<open>JSON.stringify\<close> wrote,
  or \<open>Corrupt\<close> for a string on which parsing or destructuring throws. The code
  writes no string of another shape under these keys, and none is represented.
  Timestamps are milliseconds since the epoch, as returned by \<open>Date.now()\<close>; the
  current time is an argument of every operation that reads the clock.
  \<open>localStorage.setItem\<close> stores the string or throws (the quota is exceeded);
  which of the two happens is the browser's, and an argument of the write.
\<close>

datatype stored = Json_entry jsstring int | Corrupt

type_synonym local_storage = "jsstring \<rightharpoonup> stored"

definition CACHE_DURATION :: int where
  "CACHE_DURATION = 60 * 60 * 1000"

text \<open>
  \<open>btoa\<close> throws on a code unit above \<open>0xFF\<close>; otherwise it is the base64 encoding of
  the code units as bytes.
\<close>

definition b64char :: "nat \<Rightarrow> jschar" where
  "b64char n =
     (if n < 26 then of_nat (65 + n)
      else if n < 52 then of_nat (97 + (n - 26))
      else if n < 62 then of_nat (48 + (n - 52))
      else if n = 62 then 0x2B else 0x2F)"

fun b64encode :: "nat list \<Rightarrow> jsstring" where
  "b64encode [] = []"
| "b64encode [a] = [b64char (a div 4), b64char ((a mod 4) * 16), 0x3D, 0x3D]"
| "b64encode [a, b] =
     [b64char (a div 4), b64char ((a mod 4) * 16 + b div 16), b64char ((b mod 16) * 4), 0x3D]"
| "b64encode (a # b # c # bytes) =
     [b64char (a div 4), b64char ((a mod 4) * 16 + b div 16),
      b64char ((b mod 16) * 4 + c div 64), b64char (c mod 64)] @ b64encode bytes"

definition btoa :: "jsstring \<Rightarrow> jsstring option" where
  "btoa s = (if list_all (\<lambda>c. c \<le> 0xFF) s then Some (b64encode (map unat s)) else None)"

text \<open>\<open>getCacheKey\<close>: \<open>None\<close> when \<open>btoa\<close> throws.\<close>

definition getCacheKey :: "jsstring \<Rightarrow> jsstring option" where
  "getCacheKey url = map_option (\<lambda>b. js ''sheet-cache-'' @ take 50 b) (btoa url)"

text \<open>
  \<open>getCachedData\<close> returns the cached text or \<open>null\<close> (\<open>None\<close>), and the storage, from
  which an expired entry has been removed. Every exception is caught and gives \<open>null\<close>.
\<close>

definition getCachedData :: "jsstring \<Rightarrow> int \<Rightarrow> local_storage \<Rightarrow> jsstring option \<times> local_storage" where
  "getCachedData url now st =
     (case getCacheKey url of
        None \<Rightarrow> (None, st)
      | Some cacheKey \<Rightarrow>
          (case st cacheKey of
             None \<Rightarrow> (None, st)
           | Some Corrupt \<Rightarrow> (None, st)
           | Some (Json_entry d timestamp) \<Rightarrow>
               (let age = now - timestamp in
                if age < CACHE_DURATION then (Some d, st)
                else (None, st(cacheKey := None)))))"

definition setItem :: "bool \<Rightarrow> local_storage \<Rightarrow> jsstring \<Rightarrow> stored \<Rightarrow> js_error + local_storage" where
  "setItem stores st key v =
     (if stores then Inr (st(key \<mapsto> v)) else Inl (Error (js ''QuotaExceededError'')))"

text \<open>\<open>setCachedData\<close> ignores whatever is thrown while writing.\<close>

definition setCachedData :: "bool \<Rightarrow> jsstring \<Rightarrow> jsstring \<Rightarrow> int \<Rightarrow> local_storage \<Rightarrow> local_storage" where
  "setCachedData stores url d now st =
     (case getCacheKey url of
        None \<Rightarrow> st
      | Some cacheKey \<Rightarrow>
          (case setItem stores st cacheKey (Json_entry d now) of
             Inl e \<Rightarrow> st
           | Inr st' \<Rightarrow> st'))"

section \<open>The fetcher\<close>

text \<open>
  A call of \<open>fetch\<close> either rejects
  with an error or resolves to a response, of which the code reads \<open>ok\<close>, \<open>status\<close>,
  \<open>statusText\<close> and \<open>text()\<close> (\<open>responseText\<close>, which may reject as well). The
  network is a function from the number of the attempt to what that call of \<open>fetch\<close>
  does. What \<open>fetchWithRetry\<close> does besides returning is recorded as a trace: calls of
  \<open>fetch\<close> and timeouts awaited.
\<close>

datatype response = Response (ok: bool) (status: nat) (statusText: jsstring) (responseText: "js_error + jsstring")

type_synonym network = "nat \<Rightarrow> js_error + response"

datatype io_event = FetchCall jsstring | SetTimeout int

fun decimal :: "nat \<Rightarrow> jsstring" where
  "decimal n = (if n < 10 then [of_nat (48 + n)] else decimal (n div 10) @ [of_nat (48 + n mod 10)])"

declare decimal.simps [simp del]

text \<open>The body of the \<open>try\<close> block for one attempt: \<open>Inl\<close> is the error caught.\<close>

definition attemptFetch :: "js_error + response \<Rightarrow> js_error + jsstring" where
  "attemptFetch outcome =
     (case outcome of
        Inl e \<Rightarrow> Inl e
      | Inr r \<Rightarrow>
          if \<not> ok r then Inl (Error (js ''HTTP '' @ decimal (status r) @ js '': '' @ statusText r))
          else responseText r)"

text \<open>
  The \<open>for\<close> loop of \<open>fetchWithRetry\<close>, from \<open>attempt\<close> on. The result is \<open>Inr\<close> the text
  returned or \<open>Inl\<close> the value thrown (\<open>lastError\<close>, which is \<open>undefined\<close>, \<open>None\<close>, when
  the loop body never ran), together with the trace.
\<close>

function fetchWithRetry_loop ::
  "network \<Rightarrow> jsstring \<Rightarrow> int \<Rightarrow> nat \<Rightarrow> js_error option \<Rightarrow> io_event list
     \<Rightarrow> (js_error option + jsstring) \<times> io_event list" where
  "fetchWithRetry_loop net url maxRetries attempt lastError trace =
     (if int attempt < maxRetries then
        (case attemptFetch (net attempt) of
           Inr body \<Rightarrow> (Inr body, trace @ [FetchCall url])
         | Inl e \<Rightarrow>
             if int attempt < maxRetries - 1 then
               fetchWithRetry_loop net url maxRetries (Suc attempt) (Some e)
                 (trace @ [FetchCall url, SetTimeout (2 ^ attempt * 1000)])
             else
               fetchWithRetry_loop net url maxRetries (Suc attempt) (Some e)
                 (trace @ [FetchCall url]))
      else (Inl lastError, trace))"
  by pat_completeness auto
termination
  by (relation "measure (\<lambda>(net, url, maxRetries, attempt, lastError, trace). nat (maxRetries - int attempt))") auto

definition fetchWithRetry :: "network \<Rightarrow> jsstring \<Rightarrow> int \<Rightarrow> (js_error option + jsstring) \<times> io_event list" where
  "fetchWithRetry net url maxRetries = fetchWithRetry_loop net url maxRetries 0 None []"

section \<open>The data hook\<close>

text \<open>
  The state of \<open>useSheetData\<close> is its five state variables. The hook's effect runs when
  \<open>url\<close>, \<open>gameType\<close> or \<open>retryTrigger\<close> change; each run may leave a promise of
  \<open>fetchWithRetry\<close> behind, whose callbacks close over the \<open>url\<close> and \<open>gameType\<close> of
  that run. The world is the hook's state, \<open>localStorage\<close> and the promises that have
  not settled yet. Promises settle one at a time, in any order.
\<close>

record load_state =
  data :: "record_obj list"
  loading :: bool
  error :: "jsstring option"
  retryTrigger :: nat
  fromCache :: bool

definition initial_state :: load_state where
  "initial_state = \<lparr>data = [], loading = True, error = None, retryTrigger = 0, fromCache = False\<rparr>"

datatype request_kind = Background | Foreground

record request =
  kind :: request_kind
  req_url :: jsstring
  req_gameType :: "jsstring option"

record world =
  hook :: load_state
  localStorage :: local_storage
  pending :: "request list"

text \<open>A string or \<open>undefined\<close>/\<open>null\<close> (\<open>None\<close>) in a condition: the empty string is falsy.\<close>

definition truthy :: "jsstring option \<Rightarrow> bool" where
  "truthy v = (case v of None \<Rightarrow> False | Some s \<Rightarrow> s \<noteq> [])"

text \<open>\<open>gameType ? parsed.filter(row => row.game_type === gameType) : parsed\<close>.\<close>

definition filterByGameType :: "jsstring option \<Rightarrow> record_obj list \<Rightarrow> record_obj list" where
  "filterByGameType gameType parsed =
     (if truthy gameType
      then filter (\<lambda>row. map_of row (js ''game_type'') = gameType) parsed
      else parsed)"

text \<open>One run of the effect, at time \<open>now\<close>.\<close>

definition useSheetData_effect ::
  "(jsstring \<Rightarrow> jsstring) \<Rightarrow> jsstring option \<Rightarrow> jsstring option \<Rightarrow> int \<Rightarrow> world \<Rightarrow> world" where
  "useSheetData_effect toLowerCase url gameType now w =
     (case url of
        None \<Rightarrow> w\<lparr>hook := (hook w)\<lparr>loading := False\<rparr>\<rparr>
      | Some u \<Rightarrow>
          if u = [] then w\<lparr>hook := (hook w)\<lparr>loading := False\<rparr>\<rparr>
          else
            (case getCachedData u now (localStorage w) of
               (cached, st) \<Rightarrow>
                 if truthy cached then
                   (let parsed = parseCSV toLowerCase (case cached of Some c \<Rightarrow> Str c | None \<Rightarrow> NonString);
                        filtered = filterByGameType gameType parsed
                    in w\<lparr>hook := (hook w)\<lparr>data := filtered, fromCache := True, loading := False\<rparr>,
                         localStorage := st,
                         pending := pending w @ [\<lparr>kind = Background, req_url = u, req_gameType = gameType\<rparr>]\<rparr>)
                 else
                   w\<lparr>hook := (hook w)\<lparr>loading := True, error := None, fromCache := False\<rparr>,
                     localStorage := st,
                     pending := pending w @ [\<lparr>kind = Foreground, req_url = u, req_gameType = gameType\<rparr>]\<rparr>))"

text \<open>
  The \<open>then\<close> and \<open>catch\<close> callbacks of a request, run at time \<open>now\<close> with what its
  \<open>fetchWithRetry\<close> settled to; \<open>stores\<close> says whether \<open>setItem\<close> stores at that time. \<open>err.message\<close> of \<open>undefined\<close> throws inside the
  callback and sets nothing.
\<close>

definition onSettled ::
  "(jsstring \<Rightarrow> jsstring) \<Rightarrow> request \<Rightarrow> js_error option + jsstring \<Rightarrow> int \<Rightarrow> bool \<Rightarrow> world \<Rightarrow> world" where
  "onSettled toLowerCase r result now stores w =
     (case result of
        Inr csv \<Rightarrow>
          (let st = setCachedData stores (req_url r) csv now (localStorage w);
               parsed = parseCSV toLowerCase (Str csv);
               filtered = filterByGameType (req_gameType r) parsed
           in case kind r of
                Background \<Rightarrow> w\<lparr>hook := (hook w)\<lparr>data := filtered, fromCache := False\<rparr>, localStorage := st\<rparr>
              | Foreground \<Rightarrow> w\<lparr>hook := (hook w)\<lparr>data := filtered, loading := False\<rparr>, localStorage := st\<rparr>)
      | Inl err \<Rightarrow>
          (case kind r of
             Background \<Rightarrow> w
           | Foreground \<Rightarrow>
               (case err of
                  None \<Rightarrow> w
                | Some e \<Rightarrow> w\<lparr>hook := (hook w)\<lparr>error := Some (message e), loading := False\<rparr>\<rparr>)))"

text \<open>
  The \<open>i\<close>-th pending request settles: its \<open>fetchWithRetry(url)\<close>, with the default of
  three attempts, has run against the network \<open>net\<close>.
\<close>

definition settle ::
  "(jsstring \<Rightarrow> jsstring) \<Rightarrow> nat \<Rightarrow> network \<Rightarrow> int \<Rightarrow> bool \<Rightarrow> world \<Rightarrow> world" where
  "settle toLowerCase i net now stores w =
     (if i < length (pending w) then
        (let r = pending w ! i;
             result = fst (fetchWithRetry net (req_url r) 3)
         in onSettled toLowerCase r result now stores
              (w\<lparr>pending := take i (pending w) @ drop (Suc i) (pending w)\<rparr>))
      else w)"

text \<open>
  What happens to a mounted hook: its effect runs for the current \<open>url\<close> and
  \<open>gameType\<close>, \<open>retry\<close> is called (which bumps \<open>retryTrigger\<close> and so runs the effect
  again), or a pending request settles.
\<close>

datatype event =
    RunEffect "jsstring option" "jsstring option" int
  | Retry "jsstring option" "jsstring option" int
  | Settle nat network int bool

fun step :: "(jsstring \<Rightarrow> jsstring) \<Rightarrow> event \<Rightarrow> world \<Rightarrow> world" where
  "step toLowerCase (RunEffect url gameType now) w = useSheetData_effect toLowerCase url gameType now w"
| "step toLowerCase (Retry url gameType now) w =
     useSheetData_effect toLowerCase url gameType now
       (w\<lparr>hook := (hook w)\<lparr>retryTrigger := Suc (retryTrigger (hook w))\<rparr>\<rparr>)"
| "step toLowerCase (Settle i net now stores) w = settle toLowerCase i net now stores w"

definition run :: "(jsstring \<Rightarrow> jsstring) \<Rightarrow> event list \<Rightarrow> world \<Rightarrow> world" where
  "run toLowerCase events w = fold (step toLowerCase) events w"

text \<open>A lower-casing of ASCII letters, to run the model on ASCII text.\<close>

definition asciiLower :: "jsstring \<Rightarrow> jsstring" where
  "asciiLower s = map (\<lambda>c. if 0x41 \<le> c \<and> c \<le> 0x5A then c + 0x20 else c) s"

section \<open>Notions of the specification\<close>

text \<open>
  A properly quoted field, in the words of the specification: the field wrapped in
  double quotes, every double quote inside it doubled.
\<close>

definition escapeQuotes :: "jsstring \<Rightarrow> jsstring" where
  "escapeQuotes v = concat (map (\<lambda>c. if c = QUOTE then [QUOTE, QUOTE] else [c]) v)"

definition quoteField :: "jsstring \<Rightarrow> jsstring" where
  "quoteField v = QUOTE # escapeQuotes v @ [QUOTE]"

text \<open>
  The decoded text of the fields of a row: the loop of \<open>parseRow\<close>, pushing \<open>current\<close>
  as it is where \<open>parseRow\<close> pushes \<open>cleanValue(current)\<close>.
\<close>

fun decodeRow_loop :: "jsstring \<Rightarrow> jsstring list \<Rightarrow> jsstring \<Rightarrow> bool \<Rightarrow> jsstring list" where
  "decodeRow_loop [] values current inQuotes = values @ [current]"
| "decodeRow_loop (c # rest) values current inQuotes =
     (if c = QUOTE then
        (if inQuotes \<and> startsWith rest QUOTE
         then decodeRow_loop (tl rest) values (current @ [QUOTE]) inQuotes
         else decodeRow_loop rest values current (\<not> inQuotes))
      else if c = COMMA \<and> \<not> inQuotes
        then decodeRow_loop rest (values @ [current]) [] inQuotes
      else decodeRow_loop rest values (current @ [c]) inQuotes)"

definition decodeRow :: "jsstring \<Rightarrow> jsstring list" where
  "decodeRow row = decodeRow_loop row [] [] False"

text \<open>
  The columns whose value a record keeps: the header is not \<open>__proto__\<close> and no later
  column has the same header (a later assignment overwrites an earlier one).
\<close>

definition keptColumn :: "jsstring list \<Rightarrow> nat \<Rightarrow> bool" where
  "keptColumn headers j \<longleftrightarrow>
     j < length headers \<and> headers ! j \<noteq> js ''__proto__'' \<and>
     headers ! j \<notin> set (drop (Suc j) headers)"

text \<open>
  The retained lines of a text, in the words of the specification: the text is cut at
  every \<open>\n\<close>, \<open>\r\<close> or \<open>\r\n\<close> that is not inside an open quote, that is, one with an
  even number of double quotes before it; blank lines are dropped.
\<close>

fun physicalLines :: "bool \<Rightarrow> jsstring \<Rightarrow> jsstring list" where
  "physicalLines inQuote [] = [[]]"
| "physicalLines inQuote (c # rest) =
     (if (c = LF \<or> c = CR) \<and> \<not> inQuote then
        (if c = CR \<and> startsWith rest LF
         then [] # physicalLines inQuote (tl rest)
         else [] # physicalLines inQuote rest)
      else
        (case physicalLines (if c = QUOTE then \<not> inQuote else inQuote) rest of
           [] \<Rightarrow> [[c]]
         | l # ls \<Rightarrow> (c # l) # ls))"

definition retainedLines :: "jsstring \<Rightarrow> jsstring list" where
  "retainedLines text = filter (\<lambda>l. trim l \<noteq> []) (physicalLines False text)"

text \<open>
  A sheet as a source of delimited text. A cell is a properly quoted field or plain
  text without double quotes, commas and newlines; its value is the field. A row is
  its cells separated by commas, and is not blank. A sheet is a header row and data
  rows, each data row after a non-empty run of newline characters (\<open>\n\<close>, \<open>\r\<close>,
  \<open>\r\n\<close>, blank lines), and a possibly empty run of newline characters at the end.
\<close>

datatype cell = Quoted jsstring | Plain jsstring

fun cellText :: "cell \<Rightarrow> jsstring" where
  "cellText (Quoted v) = quoteField v"
| "cellText (Plain p) = p"

fun cellValue :: "cell \<Rightarrow> jsstring" where
  "cellValue (Quoted v) = v"
| "cellValue (Plain p) = p"

fun cellOk :: "cell \<Rightarrow> bool" where
  "cellOk (Quoted v) = True"
| "cellOk (Plain p) = (QUOTE \<notin> set p \<and> COMMA \<notin> set p \<and> LF \<notin> set p \<and> CR \<notin> set p)"

fun renderRow :: "cell list \<Rightarrow> jsstring" where
  "renderRow [] = []"
| "renderRow [c] = cellText c"
| "renderRow (c # d # cs) = cellText c @ COMMA # renderRow (d # cs)"

definition rowOk :: "cell list \<Rightarrow> bool" where
  "rowOk cells \<longleftrightarrow> list_all cellOk cells \<and> trim (renderRow cells) \<noteq> []"

definition newlines :: "jsstring \<Rightarrow> bool" where
  "newlines s \<longleftrightarrow> list_all (\<lambda>c. c = LF \<or> c = CR) s"

fun renderRows :: "(jsstring \<times> cell list) list \<Rightarrow> jsstring" where
  "renderRows [] = []"
| "renderRows ((sep, cells) # rows) = sep @ renderRow cells @ renderRows rows"

definition renderSheet :: "cell list \<Rightarrow> (jsstring \<times> cell list) list \<Rightarrow> jsstring \<Rightarrow> jsstring" where
  "renderSheet header rows ending = renderRow header @ renderRows rows @ ending"

definition sheetOk :: "cell list \<Rightarrow> (jsstring \<times> cell list) list \<Rightarrow> jsstring \<Rightarrow> bool" where
  "sheetOk header rows ending \<longleftrightarrow>
     rowOk header \<and> list_all (\<lambda>(sep, cells). sep \<noteq> [] \<and> newlines sep \<and> rowOk cells) rows \<and> newlines ending"

text \<open>
  A failed attempt, in the words of the specification: a network fault or a
  non-success status; reading the text of the response can fail as well.
\<close>

definition attemptFails :: "js_error + response \<Rightarrow> bool" where
  "attemptFails outcome =
     (case outcome of
        Inl e \<Rightarrow> True
      | Inr r \<Rightarrow> \<not> ok r \<or> (case responseText r of Inl e \<Rightarrow> True | Inr body \<Rightarrow> False))"

text \<open>What a settled request does to the records: a success sets them, a failure leaves them.\<close>

definition recordsAfter ::
  "(jsstring \<Rightarrow> jsstring) \<Rightarrow> request \<Rightarrow> js_error option + jsstring \<Rightarrow> record_obj list \<Rightarrow> record_obj list" where
  "recordsAfter toLowerCase r result before =
     (case result of
        Inr csv \<Rightarrow> filterByGameType (req_gameType r) (parseCSV toLowerCase (Str csv))
      | Inl err \<Rightarrow> before)"

section \<open>Concrete inputs\<close>

text \<open>A network on which every call fails: a rejection, then two error statuses.\<close>

definition failing_network :: network where
  "failing_network k =
     (if k = 0 then Inl (Error (js ''Failed to fetch''))
      else if k = 1 then Inr (Response False 404 (js ''Not Found'') (Inr []))
      else Inr (Response False 503 (js ''Service Unavailable'') (Inr [])))"

text \<open>A network on which the first call succeeds with the given text.\<close>

definition serving :: "jsstring \<Rightarrow> network" where
  "serving body k = Inr (Response True 200 (js ''OK'') (Inr body))"

text \<open>A text with a header row and blank lines only.\<close>

definition header_only_csv :: jsstring where
  "header_only_csv = js ''a,b'' @ [LF, LF] @ js '' '' @ [CR, LF]"

text \<open>A sheet, its cache key, two versions of its text, and a world that has it cached.\<close>

definition sheet_url :: jsstring where
  "sheet_url = js ''https://a.b/c''"

definition sheet_key :: jsstring where
  "sheet_key = js ''sheet-cache-aHR0cHM6Ly9hLmIvYw==''"

definition quiz_csv :: jsstring where
  "quiz_csv = js ''game_type,q'' @ [LF] @ js ''x,1'' @ [LF] @ js ''y,2'' @ [LF] @ js ''x,3''"

definition new_csv :: jsstring where
  "new_csv = js ''game_type,q'' @ [LF] @ js ''x,4''"

definition cached_world :: world where
  "cached_world =
     \<lparr>hook = initial_state, localStorage = [sheet_key \<mapsto> Json_entry quiz_csv 1000], pending = []\<rparr>"

text \<open>Two sheets with different texts, and a world with an empty cache.\<close>

definition url_A :: jsstring where
  "url_A = js ''https://a.b/A''"

definition url_B :: jsstring where
  "url_B = js ''https://a.b/B''"

definition csv_A :: jsstring where
  "csv_A = js ''q'' @ [LF] @ js ''from A''"

definition csv_B :: jsstring where
  "csv_B = js ''q'' @ [LF] @ js ''from B''"

definition empty_world :: world where
  "empty_world = \<lparr>hook = initial_state, localStorage = Map.empty, pending = []\<rparr>"

text \<open>
  Texts for the parser: a ragged sheet with a repeated header; a row whose only value
  lies under a repeated header, and one whose only value lies beyond the headers; a
  field with a comma, a newline and quotes, the same field ending in the newline, and
  the sheet that holds the latter properly quoted; a sheet whose quoted fields hold a
  quoted text themselves.
\<close>

definition ragged_csv :: jsstring where
  "ragged_csv = js ''Name,Score,Name'' @ [LF] @ js ''ann,1'' @ [CR, LF] @ js '',,bob,extra''"

definition dup_header_csv :: jsstring where
  "dup_header_csv = js ''a,a'' @ [LF] @ js ''x,''"

definition extra_value_csv :: jsstring where
  "extra_value_csv = js ''a,b'' @ [LF] @ js '',,x''"

definition said_hi :: jsstring where
  "said_hi = js ''He said '' @ [QUOTE] @ js ''hi'' @ [QUOTE, COMMA, LF] @ js ''bye''"

definition said_hi_newline :: jsstring where
  "said_hi_newline = js ''He said '' @ [QUOTE] @ js ''hi'' @ [QUOTE, COMMA, LF]"

definition said_hi_newline_csv :: jsstring where
  "said_hi_newline_csv =
     [QUOTE] @ js ''h'' @ [QUOTE, LF, QUOTE] @ js ''He said '' @ [QUOTE, QUOTE] @ js ''hi'' @ [QUOTE, QUOTE, COMMA, LF, QUOTE]"

definition nested_csv :: jsstring where
  "nested_csv = js ''h,k'' @ [LF] @ [QUOTE, QUOTE, QUOTE] @ js '' a '' @ [QUOTE, QUOTE, QUOTE, COMMA]
      @ [QUOTE, QUOTE, QUOTE, QUOTE, QUOTE] @ js ''x'' @ [QUOTE, QUOTE, QUOTE, QUOTE, QUOTE]"

text \<open>A row of two fields with whitespace around them, the second one quoted.\<close>

definition padded_row :: jsstring where
  "padded_row = js '' x ,'' @ [QUOTE] @ js '' y '' @ [QUOTE]"

text \<open>A lone double quote and a quoted field, each with whitespace around it.\<close>

definition lone_quote :: jsstring where
  "lone_quote = js '' '' @ [QUOTE] @ js '' ''"

definition quoted_y :: jsstring where
  "quoted_y = js '' '' @ [QUOTE] @ js '' y '' @ [QUOTE]"

text \<open>A block that throws, whatever the text.\<close>

definition faulty_block :: "jsstring \<Rightarrow> js_error + record_obj list" where
  "faulty_block text = Inl (Error (js ''RangeError''))"

text \<open>
  A sheet with a plain header, a row holding \<open>said_hi\<close> as a quoted field, and a plain
  row after \<open>\r\n\<close>.
\<close>

definition mixed_header :: "cell list" where
  "mixed_header = [Plain (js ''id''), Plain (js ''Quote'')]"

definition mixed_rows :: "(jsstring \<times> cell list) list" where
  "mixed_rows = [([LF], [Plain (js ''7''), Quoted said_hi]), ([CR, LF], [Plain (js ''8''), Plain (js ''plain'')])]"

section \<open>Evaluating the model on the concrete inputs\<close>

lemmas parser_defs = parseCSV_def parseCSV_catch_def parseCSV_block_def splitRows_def parseRow_def js_def LF_def QUOTE_def COMMA_def CR_def
  pushRow_def trim_def isWhiteSpace_def startsWith_def endsWith_def cleanValue_def slice_1_m1_def
  buildRecord_def assign_def valueAt_def someNonBlank_def asciiLower_def

lemma splitRows_header_only: "splitRows header_only_csv = [js ''a,b'']"
  by (simp add: header_only_csv_def splitRows_def js_def LF_def CR_def QUOTE_def pushRow_def trim_def
      isWhiteSpace_def startsWith_def)

lemma parse_quiz_csv:
  "parseCSV asciiLower (Str quiz_csv) =
     [[(js ''game_type'', js ''x''), (js ''q'', js ''1'')],
      [(js ''game_type'', js ''y''), (js ''q'', js ''2'')],
      [(js ''game_type'', js ''x''), (js ''q'', js ''3'')]]"
  unfolding quiz_csv_def by (simp add: parser_defs)

lemma parse_new_csv:
  "parseCSV asciiLower (Str new_csv) = [[(js ''game_type'', js ''x''), (js ''q'', js ''4'')]]"
  unfolding new_csv_def by (simp add: parser_defs)

lemma parse_csv_A: "parseCSV asciiLower (Str csv_A) = [[(js ''q'', js ''from A'')]]"
  unfolding csv_A_def by (simp add: parser_defs)

lemma parse_csv_B: "parseCSV asciiLower (Str csv_B) = [[(js ''q'', js ''from B'')]]"
  unfolding csv_B_def by (simp add: parser_defs)

lemma filter_x_quiz:
  "filterByGameType (Some (js ''x'')) (parseCSV asciiLower (Str quiz_csv)) =
     [[(js ''game_type'', js ''x''), (js ''q'', js ''1'')],
      [(js ''game_type'', js ''x''), (js ''q'', js ''3'')]]"
  by (simp add: parse_quiz_csv filterByGameType_def truthy_def) (simp add: js_def)

lemma filter_x_new:
  "filterByGameType (Some (js ''x'')) (parseCSV asciiLower (Str new_csv)) =
     [[(js ''game_type'', js ''x''), (js ''q'', js ''4'')]]"
  by (simp add: parse_new_csv filterByGameType_def truthy_def)

lemma getCacheKey_sheet_url: "getCacheKey sheet_url = Some sheet_key"
  by (simp add: sheet_url_def sheet_key_def getCacheKey_def btoa_def js_def b64char_def)

lemma fetchWithRetry_serving: "fetchWithRetry (serving body) u 3 = (Inr body, [FetchCall u])"
  unfolding fetchWithRetry_def
  by (subst fetchWithRetry_loop.simps) (simp add: serving_def attemptFetch_def)

lemma fetchWithRetry_failing_network:
  "fst (fetchWithRetry failing_network u 3) = Inl (Some (Error (js ''HTTP 503: Service Unavailable'')))"
  by (simp add: fetchWithRetry_def failing_network_def attemptFetch_def js_def decimal.simps)

section \<open>The fetcher: retries and backoff\<close>

lemma fetchWithRetry_loop_fail_more:
  "int attempt < maxRetries - 1 \<Longrightarrow> attemptFetch (net attempt) = Inl e \<Longrightarrow>
   fetchWithRetry_loop net url maxRetries attempt lastError trace =
   fetchWithRetry_loop net url maxRetries (Suc attempt) (Some e)
     (trace @ [FetchCall url, SetTimeout (2 ^ attempt * 1000)])"
  by (subst fetchWithRetry_loop.simps) simp

lemma fetchWithRetry_loop_fail_last:
  "int attempt = maxRetries - 1 \<Longrightarrow> attemptFetch (net attempt) = Inl e \<Longrightarrow>
   fetchWithRetry_loop net url maxRetries attempt lastError trace =
   fetchWithRetry_loop net url maxRetries (Suc attempt) (Some e) (trace @ [FetchCall url])"
  by (subst fetchWithRetry_loop.simps) simp

lemma fetchWithRetry_loop_done:
  "maxRetries \<le> int attempt \<Longrightarrow>
   fetchWithRetry_loop net url maxRetries attempt lastError trace = (Inl lastError, trace)"
  by (subst fetchWithRetry_loop.simps) simp

lemma fetchWithRetry_loop_success:
  "int attempt < maxRetries \<Longrightarrow> attemptFetch (net attempt) = Inr body \<Longrightarrow>
   fetchWithRetry_loop net url maxRetries attempt lastError trace = (Inr body, trace @ [FetchCall url])"
  by (subst fetchWithRetry_loop.simps) simp

lemma attemptFails_Inl: "attemptFails outcome \<Longrightarrow> \<exists>e. attemptFetch outcome = Inl e"
  by (auto simp: attemptFails_def attemptFetch_def split: sum.splits)

lemma fetchWithRetry_three_Inl:
  assumes "attemptFetch (net 0) = Inl e0"
    and "attemptFetch (net 1) = Inl e1"
    and "attemptFetch (net 2) = Inl e2"
  shows "fetchWithRetry net url 3 =
           (Inl (Some e2),
            [FetchCall url, SetTimeout 1000, FetchCall url, SetTimeout 2000, FetchCall url])"
proof -
  have a1: "attemptFetch (net (Suc 0)) = Inl e1"
    using assms(2) by simp
  have a2: "attemptFetch (net (Suc (Suc 0))) = Inl e2"
    using assms(3) by (simp add: numeral_2_eq_2)
  have "fetchWithRetry net url 3 =
        fetchWithRetry_loop net url 3 (Suc 0) (Some e0) [FetchCall url, SetTimeout 1000]"
    unfolding fetchWithRetry_def using assms(1)
    by (subst fetchWithRetry_loop_fail_more[where e = e0]) simp_all
  also have "\<dots> = fetchWithRetry_loop net url 3 (Suc (Suc 0)) (Some e1)
        [FetchCall url, SetTimeout 1000, FetchCall url, SetTimeout 2000]"
    using a1 by (subst fetchWithRetry_loop_fail_more[where e = e1]) simp_all
  also have "\<dots> = fetchWithRetry_loop net url 3 (Suc (Suc (Suc 0))) (Some e2)
        [FetchCall url, SetTimeout 1000, FetchCall url, SetTimeout 2000, FetchCall url]"
    using a2 by (subst fetchWithRetry_loop_fail_last[where e = e2]) simp_all
  also have "\<dots> = (Inl (Some e2),
        [FetchCall url, SetTimeout 1000, FetchCall url, SetTimeout 2000, FetchCall url])"
    by (subst fetchWithRetry_loop_done) simp_all
  finally show ?thesis .
qed

text \<open>
  Claim C3. When all three attempts of \<open>fetchWithRetry(url, 3)\<close> fail, \<open>fetch\<close> is called
  exactly three times, a timeout of 1000 ms is awaited before the second call and one of
  2000 ms before the third (\<open>2^(k-1) * 1000\<close> before attempt \<open>k\<close>), nothing is awaited
  before the first call or after the third, and the call throws the failure of the last
  attempt: the error \<open>fetch\<close> rejected with, the error \<open>HTTP status: statusText\<close> of a
  response that is not ok, or the error reading the text rejected with.
\<close>

theorem fetchWithRetry_three_failures:
  assumes "attemptFails (net 0)" and "attemptFails (net 1)" and "attemptFails (net 2)"
  shows "snd (fetchWithRetry net url 3) =
           [FetchCall url, SetTimeout 1000, FetchCall url, SetTimeout 2000, FetchCall url]
       \<and> (\<exists>e. fst (fetchWithRetry net url 3) = Inl (Some e))
       \<and> (\<forall>e. net 2 = Inl e \<longrightarrow> fst (fetchWithRetry net url 3) = Inl (Some e))
       \<and> (\<forall>r. net 2 = Inr r \<and> \<not> ok r \<longrightarrow>
             fst (fetchWithRetry net url 3) =
               Inl (Some (Error (js ''HTTP '' @ decimal (status r) @ js '': '' @ statusText r))))
       \<and> (\<forall>r e. net 2 = Inr r \<and> ok r \<and> responseText r = Inl e \<longrightarrow>
             fst (fetchWithRetry net url 3) = Inl (Some e))"
proof -
  obtain e0 where e0: "attemptFetch (net 0) = Inl e0"
    using assms(1) attemptFails_Inl by blast
  obtain e1 where e1: "attemptFetch (net 1) = Inl e1"
    using assms(2) attemptFails_Inl by blast
  obtain e2 where e2: "attemptFetch (net 2) = Inl e2"
    using assms(3) attemptFails_Inl by blast
  have r: "fetchWithRetry net url 3 =
           (Inl (Some e2),
            [FetchCall url, SetTimeout 1000, FetchCall url, SetTimeout 2000, FetchCall url])"
    using e0 e1 e2 by (rule fetchWithRetry_three_Inl)
  have c1: "e2 = e" if "net 2 = Inl e" for e
    using e2 that by (simp add: attemptFetch_def)
  have c2: "e2 = Error (js ''HTTP '' @ decimal (status r) @ js '': '' @ statusText r)"
    if "net 2 = Inr r" "\<not> ok r" for r
    using e2 that by (simp add: attemptFetch_def)
  have c3: "e2 = e" if "net 2 = Inr r" "ok r" "responseText r = Inl e" for r e
    using e2 that by (simp add: attemptFetch_def)
  show ?thesis
    unfolding r fst_conv snd_conv
  proof (intro conjI allI impI)
    show "[FetchCall url, SetTimeout 1000, FetchCall url, SetTimeout 2000, FetchCall url] =
          [FetchCall url, SetTimeout 1000, FetchCall url, SetTimeout 2000, FetchCall url]"
      by (rule refl)
    show "\<exists>e. (Inl (Some e2) :: js_error option + jsstring) = Inl (Some e)"
      by (rule exI [of _ e2]) (rule refl)
  next
    fix e assume "net 2 = Inl e"
    then show "(Inl (Some e2) :: js_error option + jsstring) = Inl (Some e)"
      using c1 by simp
  next
    fix r assume "net 2 = Inr r \<and> \<not> ok r"
    then show "(Inl (Some e2) :: js_error option + jsstring) =
        Inl (Some (Error (js ''HTTP '' @ decimal (status r) @ js '': '' @ statusText r)))"
      using c2 by simp
  next
    fix r e assume "net 2 = Inr r \<and> ok r \<and> responseText r = Inl e"
    then show "(Inl (Some e2) :: js_error option + jsstring) = Inl (Some e)"
      using c3 by simp
  qed
qed

theorem fetchWithRetry_three_failures_witness:
  "fetchWithRetry failing_network (js ''https://example.org/sheet'') 3 =
     (Inl (Some (Error (js ''HTTP 503: Service Unavailable''))),
      [FetchCall (js ''https://example.org/sheet''), SetTimeout 1000,
       FetchCall (js ''https://example.org/sheet''), SetTimeout 2000,
       FetchCall (js ''https://example.org/sheet'')])"
proof -
  have f: "attemptFails (failing_network 0)" "attemptFails (failing_network 1)"
      "attemptFails (failing_network 2)"
    by (simp_all add: attemptFails_def failing_network_def)
  have n2: "failing_network 2 = Inr (Response False 503 (js ''Service Unavailable'') (Inr []))"
    by (simp add: failing_network_def)
  have d: "js ''HTTP '' @ decimal 503 @ js '': '' @ js ''Service Unavailable'' = js ''HTTP 503: Service Unavailable''"
    by (simp add: js_def decimal.simps)
  from fetchWithRetry_three_failures [OF f, of "js ''https://example.org/sheet''"]
  have "snd (fetchWithRetry failing_network (js ''https://example.org/sheet'') 3) =
      [FetchCall (js ''https://example.org/sheet''), SetTimeout 1000,
       FetchCall (js ''https://example.org/sheet''), SetTimeout 2000,
       FetchCall (js ''https://example.org/sheet'')]"
    and "fst (fetchWithRetry failing_network (js ''https://example.org/sheet'') 3) =
      Inl (Some (Error (js ''HTTP 503: Service Unavailable'')))"
    using n2 d by auto
  then show ?thesis
    by (simp add: prod_eq_iff)
qed


section \<open>The cache: expiry and keys\<close>

lemma getCachedData_fresh:
  assumes "getCacheKey u = Some cacheKey" and "st cacheKey = Some (Json_entry c T)"
    and "now - T < 3600000"
  shows "getCachedData u now st = (Some c, st)"
  using assms by (simp add: getCachedData_def CACHE_DURATION_def)

text \<open>
  Claim C4. An entry written at time \<open>T\<close> (so the key of the identifier exists and
  \<open>setItem\<close> stored the entry) is returned by every read at a time \<open>t\<close> with \<open>t - T < 3600000\<close>, leaving the storage as
  it is; a read with \<open>t - T \<ge> 3600000\<close> returns \<open>null\<close> and leaves the storage without
  the entry. In particular the entry is read at \<open>T + 3599999\<close> and absent at
  \<open>T + 3600000\<close>.
\<close>

theorem cache_ttl:
  assumes "getCacheKey url = Some cacheKey"
  shows "(t - T < 3600000 \<longrightarrow>
            getCachedData url t (setCachedData True url d T st) = (Some d, setCachedData True url d T st))
       \<and> (3600000 \<le> t - T \<longrightarrow>
            getCachedData url t (setCachedData True url d T st)
              = (None, (setCachedData True url d T st)(cacheKey := None))
            \<and> ((setCachedData True url d T st)(cacheKey := None)) cacheKey = None)
       \<and> fst (getCachedData url (T + 3599999) (setCachedData True url d T st)) = Some d
       \<and> fst (getCachedData url (T + 3600000) (setCachedData True url d T st)) = None"
  using assms by (simp add: getCachedData_def setCachedData_def setItem_def CACHE_DURATION_def)

theorem cache_ttl_witness:
  "fst (getCachedData sheet_url 4599999 (setCachedData True sheet_url quiz_csv 1000000 Map.empty))
     = Some quiz_csv
   \<and> getCachedData sheet_url 4600000 (setCachedData True sheet_url quiz_csv 1000000 Map.empty)
     = (None, Map.empty)"
  using cache_ttl [OF getCacheKey_sheet_url, of 4599999 1000000 quiz_csv Map.empty]
        cache_ttl [OF getCacheKey_sheet_url, of 4600000 1000000 quiz_csv Map.empty]
  by (simp add: setCachedData_def setItem_def getCacheKey_sheet_url)

text \<open>
  Claim C10. For an identifier with a code unit above \<open>0xFF\<close>, \<open>btoa\<close> throws, so
  \<open>getCacheKey\<close> throws inside the \<open>try\<close> of both cache operations: the read returns
  \<open>null\<close>, the write stores nothing, and neither changes the storage or throws.
\<close>

theorem cache_disabled_outside_latin1:
  assumes "\<exists>c \<in> set url. 0xFF < c"
  shows "btoa url = None
       \<and> getCachedData url now st = (None, st)
       \<and> setCachedData stores url d now st = st"
proof -
  have "\<not> list_all (\<lambda>c. c \<le> 0xFF) url"
    using assms by (auto simp: list_all_iff not_le)
  then have "btoa url = None"
    by (simp add: btoa_def)
  then show ?thesis
    by (simp add: getCachedData_def setCachedData_def getCacheKey_def)
qed

theorem cache_disabled_outside_latin1_witness:
  "getCachedData (sheet_url @ [0x20AC]) 5 [sheet_key \<mapsto> Corrupt] = (None, [sheet_key \<mapsto> Corrupt])
   \<and> setCachedData True (sheet_url @ [0x20AC]) quiz_csv 5 [sheet_key \<mapsto> Corrupt] = [sheet_key \<mapsto> Corrupt]"
  using cache_disabled_outside_latin1 [of "sheet_url @ [0x20AC]" 5 "[sheet_key \<mapsto> Corrupt]" True quiz_csv]
  by simp

section \<open>The data hook\<close>

lemma effect_cache_hit:
  assumes "getCachedData u now (localStorage w) = (Some c, st)" and "c \<noteq> []" and "u \<noteq> []"
  shows "useSheetData_effect toLowerCase (Some u) gameType now w =
           w\<lparr>hook := (hook w)\<lparr>data := filterByGameType gameType (parseCSV toLowerCase (Str c)),
                                fromCache := True, loading := False\<rparr>,
             localStorage := st,
             pending := pending w @ [\<lparr>kind = Background, req_url = u, req_gameType = gameType\<rparr>]\<rparr>"
  using assms by (simp add: useSheetData_effect_def truthy_def)

lemma effect_cache_miss:
  assumes "getCachedData u now (localStorage w) = (cached, st)" and "\<not> truthy cached" and "u \<noteq> []"
  shows "useSheetData_effect toLowerCase (Some u) gameType now w =
           w\<lparr>hook := (hook w)\<lparr>loading := True, error := None, fromCache := False\<rparr>,
             localStorage := st,
             pending := pending w @ [\<lparr>kind = Foreground, req_url = u, req_gameType = gameType\<rparr>]\<rparr>"
  using assms by (simp add: useSheetData_effect_def)

lemma data_onSettled_success:
  "data (hook (onSettled toLowerCase r (Inr csv) now stores w)) =
     filterByGameType (req_gameType r) (parseCSV toLowerCase (Str csv))"
  by (simp add: onSettled_def Let_def split: request_kind.split)

lemma pending_onSettled: "pending (onSettled toLowerCase r result now stores w) = pending w"
  by (simp add: onSettled_def Let_def split: request_kind.split sum.split option.split)

text \<open>
  Claim C8. With a non-empty \<open>gameType\<close>, the records emitted are the parsed records
  whose \<open>game_type\<close> equals it, in their original order: at the emission from the cache
  and at the emission after a fetch, in the background or the foreground.
\<close>

theorem filter_by_game_type:
  assumes "g \<noteq> []"
  shows "filterByGameType (Some g) parsed = filter (\<lambda>row. map_of row (js ''game_type'') = Some g) parsed
       \<and> set (filterByGameType (Some g) parsed) = {row \<in> set parsed. map_of row (js ''game_type'') = Some g}
       \<and> subseq (filterByGameType (Some g) parsed) parsed
       \<and> data (hook (onSettled toLowerCase \<lparr>kind = k, req_url = u, req_gameType = Some g\<rparr> (Inr csv) now stores w))
           = filter (\<lambda>row. map_of row (js ''game_type'') = Some g) (parseCSV toLowerCase (Str csv))
       \<and> (getCachedData u now (localStorage w) = (Some c, st) \<and> c \<noteq> [] \<and> u \<noteq> [] \<longrightarrow>
            data (hook (useSheetData_effect toLowerCase (Some u) (Some g) now w))
              = filter (\<lambda>row. map_of row (js ''game_type'') = Some g) (parseCSV toLowerCase (Str c)))"
  using assms by (simp add: filterByGameType_def truthy_def data_onSettled_success effect_cache_hit)

theorem filter_by_game_type_witness:
  "filterByGameType (Some (js ''x'')) (parseCSV asciiLower (Str quiz_csv)) =
     [[(js ''game_type'', js ''x''), (js ''q'', js ''1'')],
      [(js ''game_type'', js ''x''), (js ''q'', js ''3'')]]"
  using filter_by_game_type [of "js ''x''" "parseCSV asciiLower (Str quiz_csv)"]
  by (simp add: parse_quiz_csv) (simp add: js_def)

subsection \<open>A cache hit after a failed load\<close>

lemma miss_url_A: "getCachedData url_A 0 (localStorage cached_world) = (None, localStorage cached_world)"
  by (simp add: getCachedData_def cached_world_def getCacheKey_def btoa_def url_A_def sheet_key_def js_def
      b64char_def)

text \<open>
  Claim C5 against the code. The branch of the effect that finds cached text sets the
  records, \<open>fromCache\<close> and \<open>loading\<close>, and does not clear \<open>error\<close>, which the branch
  without cached text does. After a load of \<open>url_A\<close> has failed, a load of the cached
  \<open>sheet_url\<close> leaves the hook with the cached records and the error of \<open>url_A\<close>.
\<close>

theorem cache_hit_keeps_error:
  "hook (run asciiLower
      [RunEffect (Some url_A) None 0, Settle 0 failing_network 1 True,
       RunEffect (Some sheet_url) (Some (js ''x'')) 2000] cached_world)
   = \<lparr>data = [[(js ''game_type'', js ''x''), (js ''q'', js ''1'')],
              [(js ''game_type'', js ''x''), (js ''q'', js ''3'')]],
      loading = False,
      error = Some (js ''HTTP 503: Service Unavailable''),
      retryTrigger = 0,
      fromCache = True\<rparr>"
proof -
  have u: "url_A \<noteq> []" "sheet_url \<noteq> []"
    by (simp_all add: url_A_def sheet_url_def js_def)
  have f: "fst (fetchWithRetry failing_network url_A 3) = Inl (Some (Error (js ''HTTP 503: Service Unavailable'')))"
    by (simp add: fetchWithRetry_def failing_network_def attemptFetch_def js_def decimal.simps)
  have hit: "getCachedData sheet_url 2000 (localStorage cached_world) = (Some quiz_csv, localStorage cached_world)"
  proof (rule getCachedData_fresh [OF getCacheKey_sheet_url])
    show "localStorage cached_world sheet_key = Some (Json_entry quiz_csv 1000)"
      by (simp add: cached_world_def)
    show "(2000::int) - 1000 < 3600000"
      by simp
  qed
  have c: "quiz_csv \<noteq> []"
    by (simp add: quiz_csv_def js_def)
  define w1 where "w1 = useSheetData_effect asciiLower (Some url_A) None 0 cached_world"
  have w1: "w1 = cached_world\<lparr>hook := (hook cached_world)\<lparr>loading := True, error := None, fromCache := False\<rparr>,
             localStorage := localStorage cached_world,
             pending := pending cached_world @ [\<lparr>kind = Foreground, req_url = url_A, req_gameType = None\<rparr>]\<rparr>"
    unfolding w1_def using miss_url_A _ u(1) by (rule effect_cache_miss) (simp add: truthy_def)
  define w2 where "w2 = settle asciiLower 0 failing_network 1 True w1"
  have w2: "w2 = cached_world\<lparr>hook := (hook cached_world)\<lparr>loading := False,
                    error := Some (js ''HTTP 503: Service Unavailable''), fromCache := False\<rparr>\<rparr>"
    unfolding w2_def by (simp add: w1 settle_def Let_def f onSettled_def cached_world_def)
  have hit2: "getCachedData sheet_url 2000 (localStorage w2) = (Some quiz_csv, localStorage cached_world)"
    using hit by (simp add: w2)
  have "run asciiLower
      [RunEffect (Some url_A) None 0, Settle 0 failing_network 1 True,
       RunEffect (Some sheet_url) (Some (js ''x'')) 2000] cached_world
     = useSheetData_effect asciiLower (Some sheet_url) (Some (js ''x'')) 2000 w2"
    by (simp add: run_def w1_def w2_def)
  also have "\<dots> = w2\<lparr>hook := (hook w2)\<lparr>data := filterByGameType (Some (js ''x'')) (parseCSV asciiLower (Str quiz_csv)),
                                fromCache := True, loading := False\<rparr>,
             localStorage := localStorage cached_world,
             pending := pending w2 @ [\<lparr>kind = Background, req_url = sheet_url, req_gameType = Some (js ''x'')\<rparr>]\<rparr>"
    using hit2 c u(2) by (rule effect_cache_hit)
  finally show ?thesis
    by (simp add: w2 filter_x_quiz cached_world_def initial_state_def)
qed


subsection \<open>Requests that settle after the identifier has changed\<close>

lemma settle_at:
  "pending w = ps @ r # qs \<Longrightarrow> length ps = i \<Longrightarrow>
   settle toLowerCase i net now stores w =
     onSettled toLowerCase r (fst (fetchWithRetry net (req_url r) 3)) now stores (w\<lparr>pending := ps @ qs\<rparr>)"
  by (simp add: settle_def Let_def nth_append)

lemma data_onSettled_failure:
  "data (hook (onSettled toLowerCase r (Inl err) now stores w)) = data (hook w)"
  by (simp add: onSettled_def split: request_kind.split option.split)

lemma pending_effect:
  assumes "u \<noteq> []"
  shows "\<exists>k. pending (useSheetData_effect toLowerCase (Some u) g now w) =
           pending w @ [\<lparr>kind = k, req_url = u, req_gameType = g\<rparr>]"
proof -
  obtain cached st where c: "getCachedData u now (localStorage w) = (cached, st)"
    by (cases "getCachedData u now (localStorage w)")
  show ?thesis
  proof (cases "truthy cached")
    case True
    then show ?thesis
      using assms c by (intro exI [of _ Background]) (simp add: useSheetData_effect_def)
  next
    case False
    then show ?thesis
      using assms c by (intro exI [of _ Foreground]) (simp add: useSheetData_effect_def)
  qed
qed

lemma run_two_effects:
  assumes "a \<noteq> []" and "b \<noteq> []"
  shows "\<exists>kA kB. pending (run toLowerCase [RunEffect (Some a) gA t1, RunEffect (Some b) gB t2] w) =
           pending w @ [\<lparr>kind = kA, req_url = a, req_gameType = gA\<rparr>,
                        \<lparr>kind = kB, req_url = b, req_gameType = gB\<rparr>]"
proof -
  let ?w1 = "useSheetData_effect toLowerCase (Some a) gA t1 w"
  obtain kA where 1: "pending ?w1 = pending w @ [\<lparr>kind = kA, req_url = a, req_gameType = gA\<rparr>]"
    using pending_effect [OF assms(1)] by blast
  obtain kB where 2: "pending (useSheetData_effect toLowerCase (Some b) gB t2 ?w1) =
      pending ?w1 @ [\<lparr>kind = kB, req_url = b, req_gameType = gB\<rparr>]"
    using pending_effect [OF assms(2)] by blast
  show ?thesis
    using 1 2 by (simp add: run_def)
qed

lemma data_onSettled:
  "data (hook (onSettled toLowerCase r result now stores w)) =
     recordsAfter toLowerCase r result (data (hook w))"
  by (cases result) (simp_all add: recordsAfter_def data_onSettled_success data_onSettled_failure)

lemma settle_two:
  assumes p: "pending w2 = ps @ [r1, r2]"
  shows "data (hook (settle toLowerCase (length ps) net2 t4 s4 (settle toLowerCase (length ps) net1 t3 s3 w2)))
           = recordsAfter toLowerCase r2 (fst (fetchWithRetry net2 (req_url r2) 3))
               (recordsAfter toLowerCase r1 (fst (fetchWithRetry net1 (req_url r1) 3)) (data (hook w2)))"
    and "data (hook (settle toLowerCase (length ps) net1 t4 s4 (settle toLowerCase (Suc (length ps)) net2 t3 s3 w2)))
           = recordsAfter toLowerCase r1 (fst (fetchWithRetry net1 (req_url r1) 3))
               (recordsAfter toLowerCase r2 (fst (fetchWithRetry net2 (req_url r2) 3)) (data (hook w2)))"
proof -
  let ?f1 = "fst (fetchWithRetry net1 (req_url r1) 3)"
  let ?f2 = "fst (fetchWithRetry net2 (req_url r2) 3)"
  have s1: "settle toLowerCase (length ps) net1 t3 s3 w2 =
      onSettled toLowerCase r1 ?f1 t3 s3 (w2\<lparr>pending := ps @ [r2]\<rparr>)"
    using settle_at [of w2 ps r1 "[r2]" "length ps" toLowerCase net1 t3 s3] p by simp
  have p1: "pending (settle toLowerCase (length ps) net1 t3 s3 w2) = ps @ r2 # []"
    by (simp add: s1 pending_onSettled)
  show "data (hook (settle toLowerCase (length ps) net2 t4 s4 (settle toLowerCase (length ps) net1 t3 s3 w2)))
           = recordsAfter toLowerCase r2 ?f2 (recordsAfter toLowerCase r1 ?f1 (data (hook w2)))"
    by (subst settle_at [OF p1 refl]) (simp add: data_onSettled s1)
  have p': "pending w2 = (ps @ [r1]) @ r2 # []"
    using p by simp
  have s2: "settle toLowerCase (Suc (length ps)) net2 t3 s3 w2 =
      onSettled toLowerCase r2 ?f2 t3 s3 (w2\<lparr>pending := (ps @ [r1]) @ []\<rparr>)"
    using settle_at [OF p', of "Suc (length ps)" toLowerCase net2 t3 s3] by simp
  have p2: "pending (settle toLowerCase (Suc (length ps)) net2 t3 s3 w2) = ps @ r1 # []"
    by (simp add: s2 pending_onSettled)
  show "data (hook (settle toLowerCase (length ps) net1 t4 s4 (settle toLowerCase (Suc (length ps)) net2 t3 s3 w2)))
           = recordsAfter toLowerCase r1 ?f1 (recordsAfter toLowerCase r2 ?f2 (data (hook w2)))"
    by (subst settle_at [OF p2 refl]) (simp add: data_onSettled s2)
qed

lemma run_effects_then_settles:
  "run toLowerCase [e1, e2, Settle i n1 t3 s3, Settle j n2 t4 s4] w =
     settle toLowerCase j n2 t4 s4 (settle toLowerCase i n1 t3 s3 (run toLowerCase [e1, e2] w))"
  by (simp add: run_def)

text \<open>
  Claim C1, as the code has it. The hook keeps no generation of its requests: the
  callbacks of every pending request run when the request settles, whichever
  identifier is requested by then; a fetch that succeeded sets the records, a fetch
  that failed leaves them. After a load for \<open>a\<close> is started and the identifier is
  switched to \<open>b\<close>, whatever the cache holds, the final records are those of \<open>b\<close> when
  the fetch of \<open>b\<close> succeeds and either settles after that of \<open>a\<close> or that of \<open>a\<close>
  fails, and those of \<open>a\<close> when the fetch of \<open>a\<close> succeeds and either settles after that
  of \<open>b\<close> or that of \<open>b\<close> fails.
\<close>

theorem last_successful_request_wins:
  fixes w :: world and toLowerCase :: "jsstring \<Rightarrow> jsstring"
    and gA gB :: "jsstring option" and t1 t2 t3 t4 :: int
    and netA netB :: network and sA sB :: bool
  assumes "a \<noteq> []" and "b \<noteq> []"
  defines "A_then_B \<equiv> run toLowerCase
            [RunEffect (Some a) gA t1, RunEffect (Some b) gB t2,
             Settle (length (pending w)) netA t3 sA, Settle (length (pending w)) netB t4 sB] w"
    and "B_then_A \<equiv> run toLowerCase
            [RunEffect (Some a) gA t1, RunEffect (Some b) gB t2,
             Settle (Suc (length (pending w))) netB t3 sB, Settle (length (pending w)) netA t4 sA] w"
  shows "(fst (fetchWithRetry netB b 3) = Inr csvB \<longrightarrow>
            data (hook A_then_B) = filterByGameType gB (parseCSV toLowerCase (Str csvB)))
       \<and> (fst (fetchWithRetry netA a 3) = Inr csvA \<longrightarrow>
            data (hook B_then_A) = filterByGameType gA (parseCSV toLowerCase (Str csvA)))
       \<and> (fst (fetchWithRetry netA a 3) = Inr csvA \<and> fst (fetchWithRetry netB b 3) = Inl errB \<longrightarrow>
            data (hook A_then_B) = filterByGameType gA (parseCSV toLowerCase (Str csvA)))
       \<and> (fst (fetchWithRetry netB b 3) = Inr csvB \<and> fst (fetchWithRetry netA a 3) = Inl errA \<longrightarrow>
            data (hook B_then_A) = filterByGameType gB (parseCSV toLowerCase (Str csvB)))"
proof -
  let ?w2 = "run toLowerCase [RunEffect (Some a) gA t1, RunEffect (Some b) gB t2] w"
  obtain kA kB where p: "pending ?w2 = pending w @
      [\<lparr>kind = kA, req_url = a, req_gameType = gA\<rparr>, \<lparr>kind = kB, req_url = b, req_gameType = gB\<rparr>]"
    using run_two_effects [OF assms(1,2)] by blast
  show ?thesis
    unfolding A_then_B_def B_then_A_def run_effects_then_settles
    using settle_two [OF p, of toLowerCase]
    by (simp add: recordsAfter_def)
qed

lemma urls_nonempty: "url_A \<noteq> []" "url_B \<noteq> []" "length (pending empty_world) = 0"
  by (simp_all add: url_A_def url_B_def js_def empty_world_def)

theorem last_successful_request_wins_witness:
  "data (hook (run asciiLower
      [RunEffect (Some url_A) None 0, RunEffect (Some url_B) None 1,
       Settle 0 (serving csv_A) 2 True, Settle 0 (serving csv_B) 3 True] empty_world))
     = [[(js ''q'', js ''from B'')]]
   \<and> data (hook (run asciiLower
      [RunEffect (Some url_A) None 0, RunEffect (Some url_B) None 1,
       Settle 0 (serving csv_A) 2 True, Settle 0 failing_network 3 True] empty_world))
     = [[(js ''q'', js ''from A'')]]"
proof -
  note t = last_successful_request_wins [OF urls_nonempty(1,2),
      where toLowerCase = asciiLower and gA = None and gB = None and ?t3.0 = 2 and ?t4.0 = 3
        and ?t1.0 = 0 and ?t2.0 = 1 and w = empty_world and sA = True and sB = True
        and netA = "serving csv_A" and csvA = csv_A]
  from t [where netB = "serving csv_B" and csvB = csv_B]
       t [where netB = failing_network and errB = "Some (Error (js ''HTTP 503: Service Unavailable''))"]
  show ?thesis
    by (simp add: urls_nonempty(3) fetchWithRetry_serving fetchWithRetry_failing_network
        parse_csv_A parse_csv_B filterByGameType_def truthy_def)
qed


text \<open>
  The claim as stated fails: a load for \<open>url_A\<close>, a switch to \<open>url_B\<close>, the fetch of
  \<open>url_B\<close> settles, then the late fetch of \<open>url_A\<close> settles. The final records are
  those of \<open>url_A\<close>, not those of \<open>url_B\<close>.
\<close>

theorem stale_result_overwrites_counterexample:
  "data (hook (run asciiLower
      [RunEffect (Some url_A) None 0, RunEffect (Some url_B) None 1,
       Settle 1 (serving csv_B) 2 True, Settle 0 (serving csv_A) 3 True] empty_world))
     = [[(js ''q'', js ''from A'')]]
   \<and> filterByGameType None (parseCSV asciiLower (Str csv_B)) = [[(js ''q'', js ''from B'')]]
   \<and> [[(js ''q'', js ''from A'')]] \<noteq> [[(js ''q'', js ''from B'')]]"
proof -
  let ?w2 = "run asciiLower [RunEffect (Some url_A) None 0, RunEffect (Some url_B) None 1] empty_world"
  obtain kA kB where p: "pending ?w2 = pending empty_world @
      [\<lparr>kind = kA, req_url = url_A, req_gameType = None\<rparr>, \<lparr>kind = kB, req_url = url_B, req_gameType = None\<rparr>]"
    using run_two_effects [OF urls_nonempty(1,2)] by blast
  have "data (hook (settle asciiLower 0 (serving csv_A) 3 True (settle asciiLower 1 (serving csv_B) 2 True ?w2)))
          = [[(js ''q'', js ''from A'')]]"
    using settle_two(2) [OF p, of asciiLower "serving csv_A" 3 True "serving csv_B" 2 True]
    by (simp add: urls_nonempty(3) recordsAfter_def fetchWithRetry_serving parse_csv_A
        filterByGameType_def truthy_def)
  moreover have "filterByGameType None (parseCSV asciiLower (Str csv_B)) = [[(js ''q'', js ''from B'')]]"
    by (simp add: parse_csv_B filterByGameType_def truthy_def)
  moreover have "[[(js ''q'', js ''from A'')]] \<noteq> [[(js ''q'', js ''from B'')]]"
    by (simp add: js_def)
  ultimately show ?thesis
    unfolding run_effects_then_settles by simp
qed


section \<open>The parser: fields, rows and records\<close>

subsection \<open>Trimming\<close>

lemma trim_eq_Nil_iff: "trim s = [] \<longleftrightarrow> (\<forall>c \<in> set s. isWhiteSpace c)"
proof
  assume "trim s = []"
  then have "\<forall>c \<in> set (dropWhile isWhiteSpace s). isWhiteSpace c"
    by (simp add: trim_def dropWhile_eq_Nil_conv)
  then have "dropWhile isWhiteSpace s = []"
    by (metis hd_dropWhile list.set_sel(1))
  then show "\<forall>c \<in> set s. isWhiteSpace c"
    by (simp add: dropWhile_eq_Nil_conv)
next
  assume "\<forall>c \<in> set s. isWhiteSpace c"
  then have "dropWhile isWhiteSpace s = []"
    by (induction s) simp_all
  then show "trim s = []"
    by (simp only: trim_def rev.simps dropWhile.simps)
qed

lemma trim_ends:
  assumes "trim s \<noteq> []"
  shows "\<not> isWhiteSpace (hd (trim s))" and "\<not> isWhiteSpace (last (trim s))"
proof -
  let ?u = "dropWhile isWhiteSpace s"
  let ?r = "dropWhile isWhiteSpace (rev ?u)"
  have r: "?r \<noteq> []" using assms by (simp add: trim_def)
  then have u: "?u \<noteq> []" by (cases "?u = []") simp_all
  have "last (trim s) = hd ?r" using r by (simp add: trim_def last_rev)
  then show "\<not> isWhiteSpace (last (trim s))" using r by (simp add: hd_dropWhile)
  have "hd (trim s) = last ?r" using r by (simp add: trim_def hd_rev)
  also have "\<dots> = last (rev ?u)"
    by (metis r append_Nil2 last_appendR takeWhile_dropWhile_id)
  also have "\<dots> = hd ?u" using u by (simp add: last_rev)
  finally show "\<not> isWhiteSpace (hd (trim s))" using u by (simp add: hd_dropWhile)
qed

lemma trim_id:
  assumes "s = [] \<or> (\<not> isWhiteSpace (hd s) \<and> \<not> isWhiteSpace (last s))"
  shows "trim s = s"
proof (cases "s = []")
  case True
  then show ?thesis by (simp add: trim_def)
next
  case False
  with assms have h: "\<not> isWhiteSpace (hd s)" and l: "\<not> isWhiteSpace (last s)" by auto
  have 1: "dropWhile isWhiteSpace s = s"
    using False h by (cases s) simp_all
  have 2: "dropWhile isWhiteSpace (rev s) = rev s"
    using False l by (cases "rev s") (simp_all add: last_rev [symmetric] hd_rev)
  show ?thesis by (simp add: trim_def 1 2)
qed

lemma trim_idem: "trim (trim s) = trim s"
  using trim_ends [of s] by (intro trim_id) auto

lemma not_ws_QUOTE: "\<not> isWhiteSpace QUOTE"
  by (simp add: isWhiteSpace_def QUOTE_def)

subsection \<open>Quoted fields\<close>

lemma COMMA_neq_QUOTE:
  "COMMA \<noteq> QUOTE" "QUOTE \<noteq> COMMA" "LF \<noteq> QUOTE" "QUOTE \<noteq> LF" "CR \<noteq> QUOTE" "QUOTE \<noteq> CR"
  "COMMA \<noteq> LF" "LF \<noteq> COMMA" "COMMA \<noteq> CR" "CR \<noteq> COMMA" "LF \<noteq> CR" "CR \<noteq> LF"
  by (simp_all add: COMMA_def QUOTE_def LF_def CR_def)

lemma startsWith_simps [simp]:
  "startsWith [] c = False" "startsWith (x # xs) c = (x = c)"
  by (simp_all add: startsWith_def)

lemma parseRow_loop_decode:
  "parseRow_loop row (map cleanValue vs) cur q = map cleanValue (decodeRow_loop row vs cur q)"
proof (induction row arbitrary: vs cur q rule: length_induct)
  case (1 row)
  show ?case
  proof (cases row)
    case Nil
    then show ?thesis by simp
  next
    case (Cons c rest)
    have IH: "\<And>r vs cur q. length r \<le> length rest \<Longrightarrow>
        parseRow_loop r (map cleanValue vs) cur q = map cleanValue (decodeRow_loop r vs cur q)"
      using 1 Cons by simp
    have IH': "\<And>r vs v cur q. length r \<le> length rest \<Longrightarrow>
        parseRow_loop r (map cleanValue vs @ [cleanValue v]) cur q =
        map cleanValue (decodeRow_loop r (vs @ [v]) cur q)"
      using IH [where vs = "_ @ [_]"] by simp
    show ?thesis
      by (simp add: Cons IH IH')
  qed
qed

lemma parseRow_decodeRow: "parseRow row = map cleanValue (decodeRow row)"
  using parseRow_loop_decode [of row "[]" "[]" False] by (simp add: parseRow_def decodeRow_def)

lemma parseRow_loop_escaped:
  "\<not> startsWith rest QUOTE \<Longrightarrow>
   parseRow_loop (escapeQuotes v @ QUOTE # rest) vals cur True = parseRow_loop rest vals (cur @ v) False"
proof (induction v arbitrary: cur)
  case Nil
  then show ?case by (simp add: escapeQuotes_def)
next
  case (Cons c v)
  have IH: "\<And>cur. parseRow_loop (escapeQuotes v @ QUOTE # rest) vals cur True = parseRow_loop rest vals (cur @ v) False"
    using Cons by simp
  show ?case
  proof (cases "c = QUOTE")
    case True
    have "escapeQuotes (c # v) = QUOTE # QUOTE # escapeQuotes v"
      using True by (simp add: escapeQuotes_def)
    then show ?thesis using IH [of "cur @ [QUOTE]"] True by simp
  next
    case False
    have "escapeQuotes (c # v) = c # escapeQuotes v"
      using False by (simp add: escapeQuotes_def)
    then show ?thesis using IH [of "cur @ [c]"] False by simp
  qed
qed

lemma parseRow_loop_quoteField:
  "\<not> startsWith rest QUOTE \<Longrightarrow>
   parseRow_loop (quoteField v @ rest) vals [] False = parseRow_loop rest vals v False"
  using parseRow_loop_escaped [of rest v vals "[]"] by (simp add: quoteField_def)

lemma splitRows_loop_escaped:
  "\<not> startsWith rest QUOTE \<Longrightarrow>
   splitRows_loop (escapeQuotes v @ QUOTE # rest) rows cur True =
   splitRows_loop rest rows (cur @ escapeQuotes v @ [QUOTE]) False"
proof (induction v arbitrary: cur)
  case Nil
  then show ?case by (simp add: escapeQuotes_def)
next
  case (Cons c v)
  have IH: "\<And>cur. splitRows_loop (escapeQuotes v @ QUOTE # rest) rows cur True =
     splitRows_loop rest rows (cur @ escapeQuotes v @ [QUOTE]) False"
    using Cons by simp
  show ?case
  proof (cases "c = QUOTE")
    case True
    have "escapeQuotes (c # v) = QUOTE # QUOTE # escapeQuotes v"
      using True by (simp add: escapeQuotes_def)
    then show ?thesis using IH [of "cur @ [QUOTE, QUOTE]"] True by simp
  next
    case False
    have "escapeQuotes (c # v) = c # escapeQuotes v"
      using False by (simp add: escapeQuotes_def)
    then show ?thesis using IH [of "cur @ [c]"] False by simp
  qed
qed

lemma splitRows_loop_quoteField:
  "\<not> startsWith rest QUOTE \<Longrightarrow>
   splitRows_loop (quoteField v @ rest) rows cur False = splitRows_loop rest rows (cur @ quoteField v) False"
  using splitRows_loop_escaped [of rest v rows "cur @ [QUOTE]"] by (simp add: quoteField_def)

subsection \<open>Building records\<close>

lemma keptColumn_nth:
  "keptColumn hs j \<longleftrightarrow>
     j < length hs \<and> hs ! j \<noteq> js ''__proto__'' \<and>
     (\<forall>j'. j < j' \<and> j' < length hs \<longrightarrow> hs ! j' \<noteq> hs ! j)"
proof -
  have "hs ! j \<in> set (drop (Suc j) hs) \<longleftrightarrow> (\<exists>j'. j < j' \<and> j' < length hs \<and> hs ! j' = hs ! j)"
  proof
    assume "hs ! j \<in> set (drop (Suc j) hs)"
    then obtain i where i: "i < length hs - Suc j" "drop (Suc j) hs ! i = hs ! j"
      by (auto simp: in_set_conv_nth)
    then have "j < Suc j + i \<and> Suc j + i < length hs \<and> hs ! (Suc j + i) = hs ! j"
      by simp
    then show "\<exists>j'. j < j' \<and> j' < length hs \<and> hs ! j' = hs ! j"
      by blast
  next
    assume "\<exists>j'. j < j' \<and> j' < length hs \<and> hs ! j' = hs ! j"
    then obtain j' where j': "j < j'" "j' < length hs" "hs ! j' = hs ! j"
      by blast
    then have "j' - Suc j < length (drop (Suc j) hs)" "drop (Suc j) hs ! (j' - Suc j) = hs ! j"
      by simp_all
    then show "hs ! j \<in> set (drop (Suc j) hs)"
      by (metis nth_mem)
  qed
  then show ?thesis
    unfolding keptColumn_def by blast
qed

lemma keys_assign: "fst ` set (assign obj h v) = fst ` set obj \<union> ({h} - {js ''__proto__''})"
  by (auto simp: assign_def dom_update)

lemma keys_forEachHeader:
  "fst ` set (forEachHeader hs i vals obj) = fst ` set obj \<union> (set hs - {js ''__proto__''})"
proof (induction hs arbitrary: i obj)
  case Nil
  show ?case by simp
next
  case (Cons h hs)
  show ?case by (simp add: Cons keys_assign) blast
qed

lemma distinct_assign: "distinct (map fst obj) \<Longrightarrow> distinct (map fst (assign obj h v))"
  by (simp add: assign_def distinct_update)

lemma distinct_forEachHeader:
  "distinct (map fst obj) \<Longrightarrow> distinct (map fst (forEachHeader hs i vals obj))"
  by (induction hs arbitrary: i obj) (simp_all add: distinct_assign)

lemma map_of_assign:
  "map_of (assign obj h v) k = (if k = h \<and> h \<noteq> js ''__proto__'' then Some v else map_of obj k)"
  by (simp add: assign_def update_conv')

lemma map_of_forEachHeader_frame:
  "k \<notin> set hs \<Longrightarrow> map_of (forEachHeader hs i vals obj) k = map_of obj k"
  by (induction hs arbitrary: i obj) (auto simp: map_of_assign)

lemma map_of_forEachHeader_kept:
  assumes "j < length hs" and "hs ! j \<noteq> js ''__proto__''"
    and "\<forall>j'. j < j' \<and> j' < length hs \<longrightarrow> hs ! j' \<noteq> hs ! j"
  shows "map_of (forEachHeader hs i vals obj) (hs ! j) = Some (valueAt vals (i + j))"
  using assms
proof (induction hs arbitrary: i obj j)
  case Nil
  then show ?case by simp
next
  case (Cons h hs)
  show ?case
  proof (cases j)
    case 0
    have "h \<notin> set hs"
    proof
      assume "h \<in> set hs"
      then obtain n where "n < length hs" "hs ! n = h" by (auto simp: in_set_conv_nth)
      then show False using Cons.prems(3) [rule_format, of "Suc n"] 0 by simp
    qed
    then show ?thesis
      using 0 Cons.prems(2) by (simp add: map_of_forEachHeader_frame map_of_assign)
  next
    case (Suc n)
    have "\<forall>j'. n < j' \<and> j' < length hs \<longrightarrow> hs ! j' \<noteq> hs ! n"
    proof (intro allI impI)
      fix j' assume "n < j' \<and> j' < length hs"
      then show "hs ! j' \<noteq> hs ! n"
        using Cons.prems(3) [rule_format, of "Suc j'"] Suc by simp
    qed
    then have "map_of (forEachHeader hs (Suc i) vals (assign obj h (valueAt vals i))) (hs ! n)
        = Some (valueAt vals (Suc i + n))"
      using Cons.prems(1,2) Suc by (intro Cons.IH) simp_all
    then show ?thesis using Suc by simp
  qed
qed

lemma last_occurrence:
  "k \<in> set hs \<Longrightarrow> \<exists>j. j < length hs \<and> hs ! j = k \<and> (\<forall>j'. j < j' \<and> j' < length hs \<longrightarrow> hs ! j' \<noteq> k)"
proof (induction hs)
  case Nil
  then show ?case by simp
next
  case (Cons h hs)
  show ?case
  proof (cases "k \<in> set hs")
    case True
    then obtain j where j: "j < length hs" "hs ! j = k" "\<forall>j'. j < j' \<and> j' < length hs \<longrightarrow> hs ! j' \<noteq> k"
      using Cons.IH by blast
    have "\<forall>j'. Suc j < j' \<and> j' < length (h # hs) \<longrightarrow> (h # hs) ! j' \<noteq> k"
    proof (intro allI impI)
      fix j' assume a: "Suc j < j' \<and> j' < length (h # hs)"
      then obtain m where m: "j' = Suc m" by (cases j') auto
      then show "(h # hs) ! j' \<noteq> k" using a j(3) by simp
    qed
    then show ?thesis using j(1,2) by (intro exI [of _ "Suc j"]) simp
  next
    case False
    then have kh: "k = h" using Cons.prems by simp
    have "\<forall>j'. 0 < j' \<and> j' < length (h # hs) \<longrightarrow> (h # hs) ! j' \<noteq> k"
    proof (intro allI impI)
      fix j' assume a: "0 < j' \<and> j' < length (h # hs)"
      then obtain m where m: "j' = Suc m" by (cases j') auto
      then have "hs ! m \<in> set hs" using a by simp
      then show "(h # hs) ! j' \<noteq> k" using False m by auto
    qed
    then show ?thesis using kh by (intro exI [of _ 0]) simp
  qed
qed

lemma entries_forEachHeader:
  assumes "(k, v) \<in> set (forEachHeader hs 0 vals [])"
  shows "\<exists>j. keptColumn hs j \<and> hs ! j = k \<and> v = valueAt vals j"
proof -
  have "fst (k, v) \<in> fst ` set (forEachHeader hs 0 vals [])"
    using assms by (rule imageI)
  then have "k \<in> set hs - {js ''__proto__''}"
    unfolding keys_forEachHeader by simp
  then have k: "k \<in> set hs" "k \<noteq> js ''__proto__''"
    by blast+
  obtain j where j: "j < length hs" "hs ! j = k" "\<forall>j'. j < j' \<and> j' < length hs \<longrightarrow> hs ! j' \<noteq> k"
    using last_occurrence [OF k(1)] by blast
  have j3: "\<forall>j'. j < j' \<and> j' < length hs \<longrightarrow> hs ! j' \<noteq> hs ! j"
    using j(3) unfolding j(2) .
  have j2: "hs ! j \<noteq> js ''__proto__''"
    using k(2) unfolding j(2) .
  have kept: "keptColumn hs j"
    unfolding keptColumn_nth using j(1) j2 j3 by blast
  have "map_of (forEachHeader hs 0 vals []) (hs ! j) = Some (valueAt vals (0 + j))"
    using j(1) j2 j3 by (rule map_of_forEachHeader_kept)
  then have 1: "map_of (forEachHeader hs 0 vals []) k = Some (valueAt vals j)"
    unfolding j(2) by simp
  have "distinct (map fst (forEachHeader hs 0 vals []))"
    by (rule distinct_forEachHeader) simp
  then have 2: "map_of (forEachHeader hs 0 vals []) k = Some v"
    using assms by (rule map_of_is_SomeI)
  have "v = valueAt vals j"
    using 1 2 by simp
  then show ?thesis
    using kept j(2) by blast
qed

lemma lookup_buildRecord:
  "keptColumn headers j \<Longrightarrow>
   map_of (buildRecord headers row) (headers ! j) = Some (valueAt (parseRow row) j)"
  using map_of_forEachHeader_kept [of j headers 0 "parseRow row" "[]"]
  by (simp add: keptColumn_nth buildRecord_def)

lemma someNonBlank_buildRecord:
  "someNonBlank (buildRecord headers row) \<longleftrightarrow>
     (\<exists>j. keptColumn headers j \<and> trim (valueAt (parseRow row) j) \<noteq> [])"
proof
  assume "someNonBlank (buildRecord headers row)"
  then obtain k v where kv: "(k, v) \<in> set (buildRecord headers row)" "trim v \<noteq> []"
    by (auto simp: someNonBlank_def list_ex_iff)
  then obtain j where "keptColumn headers j" "v = valueAt (parseRow row) j"
    using entries_forEachHeader [of k v headers "parseRow row"] by (auto simp: buildRecord_def)
  then show "\<exists>j. keptColumn headers j \<and> trim (valueAt (parseRow row) j) \<noteq> []"
    using kv(2) by blast
next
  assume "\<exists>j. keptColumn headers j \<and> trim (valueAt (parseRow row) j) \<noteq> []"
  then obtain j where j: "keptColumn headers j" "trim (valueAt (parseRow row) j) \<noteq> []"
    by blast
  have "(headers ! j, valueAt (parseRow row) j) \<in> set (buildRecord headers row)"
    using lookup_buildRecord [OF j(1)] by (rule map_of_SomeD)
  then show "someNonBlank (buildRecord headers row)"
    using j(2) by (force simp: someNonBlank_def list_ex_iff)
qed

lemma keys_buildRecord: "fst ` set (buildRecord headers row) = set headers - {js ''__proto__''}"
  by (simp add: buildRecord_def keys_forEachHeader)

lemma parseCSV_rows:
  assumes "splitRows text = header # dataRows" and "dataRows \<noteq> []"
  shows "parseCSV toLowerCase (Str text) =
           filter someNonBlank (map (buildRecord (map toLowerCase (parseRow header))) dataRows)"
proof -
  have "text \<noteq> []"
    using assms(1) by (auto simp: splitRows_def pushRow_def trim_def)
  moreover have "\<not> length (splitRows text) < 2"
    using assms by (cases dataRows) simp_all
  ultimately show ?thesis
    using assms(1) by (simp add: parseCSV_def parseCSV_catch_def parseCSV_block_def)
qed

text \<open>
  Claim C6, as the code has it. When the retained rows are a header and \<open>N \<ge> 1\<close> data
  rows, and every data row has a non-blank value in a kept column, \<open>parseCSV\<close> returns
  exactly \<open>N\<close> records, one per data row in order; each has every lower-cased
  header other than \<open>__proto__\<close> as a key, and no key that is not a header; under
  the header of a kept column it holds
  the value of the row at that index, and the empty string when the row has fewer
  values; values beyond the header count are stored under no key.
\<close>

theorem parseCSV_records:
  assumes "splitRows text = header # dataRows" and "dataRows \<noteq> []"
    and "headers = map toLowerCase (parseRow header)"
    and "\<forall>row \<in> set dataRows. \<exists>j. keptColumn headers j \<and> trim (valueAt (parseRow row) j) \<noteq> []"
  shows "parseCSV toLowerCase (Str text) = map (buildRecord headers) dataRows
       \<and> length (parseCSV toLowerCase (Str text)) = length dataRows
       \<and> (\<forall>r \<in> set (parseCSV toLowerCase (Str text)).
            set headers - {js ''__proto__''} \<subseteq> fst ` set r \<and> fst ` set r \<subseteq> set headers)
       \<and> (\<forall>i j. i < length dataRows \<and> keptColumn headers j \<longrightarrow>
            map_of (parseCSV toLowerCase (Str text) ! i) (headers ! j) =
              Some (if j < length (parseRow (dataRows ! i)) then parseRow (dataRows ! i) ! j else []))"
proof -
  have "\<forall>row \<in> set dataRows. someNonBlank (buildRecord headers row)"
    using assms(4) by (simp add: someNonBlank_buildRecord)
  then have "filter someNonBlank (map (buildRecord headers) dataRows) = map (buildRecord headers) dataRows"
    by (simp add: filter_id_conv)
  then have eq: "parseCSV toLowerCase (Str text) = map (buildRecord headers) dataRows"
    using parseCSV_rows [OF assms(1,2), of toLowerCase] assms(3) by simp
  show ?thesis
    by (auto simp: eq keys_buildRecord lookup_buildRecord valueAt_def)
qed

lemma splitRows_ragged: "splitRows ragged_csv = [js ''Name,Score,Name'', js ''ann,1'', js '',,bob,extra'']"
  by (simp add: ragged_csv_def splitRows_def js_def LF_def CR_def QUOTE_def pushRow_def trim_def
      isWhiteSpace_def)

lemma parseRow_ragged:
  "parseRow (js ''Name,Score,Name'') = [js ''Name'', js ''Score'', js ''Name'']"
  "parseRow (js ''ann,1'') = [js ''ann'', js ''1'']"
  "parseRow (js '',,bob,extra'') = [[], [], js ''bob'', js ''extra'']"
  by (simp_all add: parser_defs)

lemma ragged_headers: "map asciiLower [js ''Name'', js ''Score'', js ''Name''] = [js ''name'', js ''score'', js ''name'']"
  by (simp add: asciiLower_def js_def)

lemma ragged_kept: "keptColumn [js ''name'', js ''score'', js ''name''] 1"
   "keptColumn [js ''name'', js ''score'', js ''name''] 2"
   by (simp_all add: keptColumn_def js_def)

theorem parseCSV_records_witness:
  "parseCSV asciiLower (Str ragged_csv) =
     [[(js ''name'', []), (js ''score'', js ''1'')],
      [(js ''name'', js ''bob''), (js ''score'', [])]]"
proof -
  let ?headers = "[js ''name'', js ''score'', js ''name'']"
  have h: "?headers = map asciiLower (parseRow (js ''Name,Score,Name''))"
    by (simp only: parseRow_ragged ragged_headers)
  have n: "[js ''ann,1'', js '',,bob,extra''] \<noteq> []"
    by simp
  have 1: "\<exists>j. keptColumn ?headers j \<and> trim (valueAt (parseRow (js ''ann,1'')) j) \<noteq> []"
    using ragged_kept(1) by (intro exI [of _ 1]) (simp add: parseRow_ragged valueAt_def, simp add: trim_def isWhiteSpace_def js_def)
  have 2: "\<exists>j. keptColumn ?headers j \<and> trim (valueAt (parseRow (js '',,bob,extra'')) j) \<noteq> []"
    using ragged_kept(2) by (intro exI [of _ 2]) (simp add: parseRow_ragged valueAt_def, simp add: trim_def isWhiteSpace_def js_def)
  have nb: "\<forall>row \<in> set [js ''ann,1'', js '',,bob,extra'']. \<exists>j. keptColumn ?headers j \<and> trim (valueAt (parseRow row) j) \<noteq> []"
    using 1 2 by simp
  from parseCSV_records [OF splitRows_ragged n h nb]
  have "parseCSV asciiLower (Str ragged_csv) = map (buildRecord ?headers) [js ''ann,1'', js '',,bob,extra'']"
    by blast
  also have "\<dots> = [[(js ''name'', []), (js ''score'', js ''1'')],
      [(js ''name'', js ''bob''), (js ''score'', [])]]"
    by (simp add: buildRecord_def parseRow_ragged valueAt_def assign_def) (simp add: js_def)
  finally show ?thesis .
qed

text \<open>
  The claim as stated fails: a data row that is not blank gives a blank record, which is
  filtered out, when its only non-blank value lies under a header that a later column
  repeats, or beyond the header count. Each of the two texts has one data row holding
  the value \<open>x\<close>, and \<open>parseCSV\<close> returns no record.
\<close>

theorem blank_record_dropped_counterexample:
  "splitRows dup_header_csv = [js ''a,a'', js ''x,'']
   \<and> parseRow (js ''x,'') = [js ''x'', []]
   \<and> trim (js ''x'') \<noteq> []
   \<and> parseCSV asciiLower (Str dup_header_csv) = []
   \<and> splitRows extra_value_csv = [js ''a,b'', js '',,x'']
   \<and> parseRow (js '',,x'') = [[], [], js ''x'']
   \<and> parseCSV asciiLower (Str extra_value_csv) = []"
  by (simp add: dup_header_csv_def extra_value_csv_def parser_defs)

subsection \<open>Sheets of quoted and plain cells\<close>

lemma cleanValue_plain:
  "trim v = v \<Longrightarrow> \<not> (startsWith v QUOTE \<and> endsWith v QUOTE) \<Longrightarrow> cleanValue v = v"
  by (auto simp: cleanValue_def)

lemma valueAt_map: "j < length vs \<Longrightarrow> valueAt (map f vs) j = f (vs ! j)"
  by (simp add: valueAt_def)

lemma parseRow_loop_plain:
  "QUOTE \<notin> set p \<Longrightarrow> COMMA \<notin> set p \<Longrightarrow>
   parseRow_loop (p @ rest) vals cur False = parseRow_loop rest vals (cur @ p) False"
  by (induction p arbitrary: cur) auto

lemma parseRow_loop_cell:
  "cellOk c \<Longrightarrow> \<not> startsWith rest QUOTE \<Longrightarrow>
   parseRow_loop (cellText c @ rest) vals [] False = parseRow_loop rest vals (cellValue c) False"
  by (cases c) (simp_all add: parseRow_loop_quoteField parseRow_loop_plain)

lemma parseRow_loop_renderRow:
  "cells \<noteq> [] \<Longrightarrow> list_all cellOk cells \<Longrightarrow>
   parseRow_loop (renderRow cells) vals [] False = vals @ map (\<lambda>c. cleanValue (cellValue c)) cells"
proof (induction cells arbitrary: vals rule: renderRow.induct)
  case 1
  then show ?case by simp
next
  case (2 c)
  then show ?case using parseRow_loop_cell [of c "[]" vals] by simp
next
  case (3 c d cs)
  have "parseRow_loop (renderRow (c # d # cs)) vals [] False =
        parseRow_loop (COMMA # renderRow (d # cs)) vals (cellValue c) False"
    using parseRow_loop_cell [of c "COMMA # renderRow (d # cs)" vals] 3(3)
    by (simp add: COMMA_neq_QUOTE)
  also have "\<dots> = parseRow_loop (renderRow (d # cs)) (vals @ [cleanValue (cellValue c)]) [] False"
    by (simp add: COMMA_neq_QUOTE)
  also have "\<dots> = (vals @ [cleanValue (cellValue c)]) @ map (\<lambda>c. cleanValue (cellValue c)) (d # cs)"
    using 3 by simp
  finally show ?case by simp
qed

lemma parseRow_renderRow:
  "cells \<noteq> [] \<Longrightarrow> list_all cellOk cells \<Longrightarrow>
   parseRow (renderRow cells) = map (\<lambda>c. cleanValue (cellValue c)) cells"
  using parseRow_loop_renderRow [of cells "[]"] by (simp add: parseRow_def)

lemma splitRows_loop_plain:
  "QUOTE \<notin> set p \<Longrightarrow> LF \<notin> set p \<Longrightarrow> CR \<notin> set p \<Longrightarrow>
   splitRows_loop (p @ rest) rows cur False = splitRows_loop rest rows (cur @ p) False"
  by (induction p arbitrary: cur) auto

lemma splitRows_loop_cell:
  "cellOk c \<Longrightarrow> \<not> startsWith rest QUOTE \<Longrightarrow>
   splitRows_loop (cellText c @ rest) rows cur False = splitRows_loop rest rows (cur @ cellText c) False"
  by (cases c) (simp_all add: splitRows_loop_quoteField splitRows_loop_plain)

lemma splitRows_loop_renderRow:
  "list_all cellOk cells \<Longrightarrow> \<not> startsWith rest QUOTE \<Longrightarrow>
   splitRows_loop (renderRow cells @ rest) rows cur False = splitRows_loop rest rows (cur @ renderRow cells) False"
proof (induction cells arbitrary: cur rule: renderRow.induct)
  case 1
  then show ?case by simp
next
  case (2 c)
  then show ?case by (simp add: splitRows_loop_cell)
next
  case (3 c d cs)
  have "splitRows_loop (renderRow (c # d # cs) @ rest) rows cur False =
        splitRows_loop (COMMA # renderRow (d # cs) @ rest) rows (cur @ cellText c) False"
    using splitRows_loop_cell [of c "COMMA # renderRow (d # cs) @ rest" rows cur] 3(2)
    by (simp add: COMMA_neq_QUOTE)
  also have "\<dots> = splitRows_loop (renderRow (d # cs) @ rest) rows (cur @ cellText c @ [COMMA]) False"
    by (simp add: COMMA_neq_QUOTE)
  also have "\<dots> = splitRows_loop rest rows ((cur @ cellText c @ [COMMA]) @ renderRow (d # cs)) False"
    using 3 by simp
  finally show ?case by simp
qed

lemma pushRow_Nil [simp]: "pushRow rows [] = rows"
  by (simp add: pushRow_def trim_def)

lemma splitRows_loop_newlines:
  "newlines s \<Longrightarrow> s \<noteq> [] \<Longrightarrow> \<not> startsWith rest LF \<Longrightarrow>
   splitRows_loop (s @ rest) rows cur False = splitRows_loop rest (pushRow rows cur) [] False"
proof (induction s arbitrary: rows cur rule: length_induct)
  case (1 s)
  note IH = 1(1) [rule_format]
  obtain c s' where s: "s = c # s'"
    using 1(3) by (cases s) auto
  have c: "c = LF \<or> c = CR" and s': "newlines s'"
    using 1(2) s by (simp_all add: newlines_def)
  then have cq: "c \<noteq> QUOTE"
    using COMMA_neq_QUOTE by auto
  let ?s'' = "if c = CR \<and> startsWith (s' @ rest) LF then tl (s' @ rest) else s' @ rest"
  have step: "splitRows_loop (s @ rest) rows cur False = splitRows_loop ?s'' (pushRow rows cur) [] False"
    using s c cq by simp
  show ?case
  proof (cases "s' = []")
    case True
    then show ?thesis using step 1(4) by simp
  next
    case False
    then obtain d s2 where s2: "s' = d # s2"
      by (cases s') auto
    show ?thesis
    proof (cases "c = CR \<and> d = LF")
      case True
      then have eq: "?s'' = s2 @ rest"
        using s2 by simp
      show ?thesis
      proof (cases "s2 = []")
        case True
        then show ?thesis using step eq by simp
      next
        case F: False
        have "newlines s2" using s' s2 by (simp add: newlines_def)
        then have "splitRows_loop (s2 @ rest) (pushRow rows cur) [] False =
            splitRows_loop rest (pushRow (pushRow rows cur) []) [] False"
          using IH [of s2] F 1(4) s s2 by simp
        then show ?thesis using step eq by simp
      qed
    next
      case F: False
      then have eq: "?s'' = s' @ rest"
        using s2 by auto
      have "splitRows_loop (s' @ rest) (pushRow rows cur) [] False =
            splitRows_loop rest (pushRow (pushRow rows cur) []) [] False"
        using IH [of s'] s' False 1(4) s by simp
      then show ?thesis using step eq by simp
    qed
  qed
qed

lemma splitRows_loop_ending:
  "newlines s \<Longrightarrow> splitRows_loop s rows cur False = pushRow rows cur"
  using splitRows_loop_newlines [of s "[]" rows cur] by (cases "s = []") simp_all

lemma renderRow_hd:
  assumes "rowOk cells"
  shows "\<exists>x xs. renderRow cells = x # xs \<and> x \<noteq> LF"
proof -
  have ne: "renderRow cells \<noteq> []" and ok: "list_all cellOk cells"
    using assms by (auto simp: rowOk_def trim_def)
  show ?thesis
  proof (cases cells rule: renderRow.cases)
    case 1
    then show ?thesis using ne by simp
  next
    case (2 c)
    then show ?thesis using ne ok by (cases c; cases "cellValue c") (auto simp: quoteField_def COMMA_neq_QUOTE)
  next
    case (3 c d cs)
    then show ?thesis using ok by (cases c; cases "cellValue c") (auto simp: quoteField_def COMMA_neq_QUOTE)
  qed
qed

lemma renderRows_start:
  "list_all (\<lambda>(sep, cells). sep \<noteq> [] \<and> newlines sep \<and> rowOk cells) rows \<Longrightarrow> newlines ending \<Longrightarrow>
   \<not> startsWith (renderRows rows @ ending) QUOTE"
proof (cases rows)
  case Nil
  assume "newlines ending"
  then show ?thesis using Nil COMMA_neq_QUOTE by (cases ending) (auto simp: newlines_def)
next
  case (Cons r rs)
  assume "list_all (\<lambda>(sep, cells). sep \<noteq> [] \<and> newlines sep \<and> rowOk cells) rows"
  then show ?thesis using Cons COMMA_neq_QUOTE
    by (cases r; cases "fst r") (auto simp: newlines_def)
qed

lemma splitRows_loop_renderRows:
  assumes "list_all (\<lambda>(sep, cells). sep \<noteq> [] \<and> newlines sep \<and> rowOk cells) rows" and "newlines ending"
  shows "splitRows_loop (renderRows rows @ ending) acc cur False =
           pushRow acc cur @ map (\<lambda>(sep, cells). renderRow cells) rows"
  using assms(1)
proof (induction rows arbitrary: acc cur)
  case Nil
  then show ?case using assms(2) by (simp add: splitRows_loop_ending)
next
  case (Cons r rs)
  obtain sep cells where r: "r = (sep, cells)"
    by (cases r)
  have sep: "sep \<noteq> []" "newlines sep" and row: "rowOk cells"
    and rs: "list_all (\<lambda>(sep, cells). sep \<noteq> [] \<and> newlines sep \<and> rowOk cells) rs"
    using Cons.prems r by simp_all
  let ?R = "renderRows rs @ ending"
  have nl: "\<not> startsWith (renderRow cells @ ?R) LF"
    using renderRow_hd [OF row] by auto
  have nq: "\<not> startsWith ?R QUOTE"
    using rs assms(2) by (rule renderRows_start)
  have ok: "list_all cellOk cells" and nb: "trim (renderRow cells) \<noteq> []"
    using row by (simp_all add: rowOk_def)
  have "splitRows_loop (renderRows (r # rs) @ ending) acc cur False =
        splitRows_loop (sep @ (renderRow cells @ ?R)) acc cur False"
    by (simp add: r)
  also have "\<dots> = splitRows_loop (renderRow cells @ ?R) (pushRow acc cur) [] False"
    using sep(2) sep(1) nl by (rule splitRows_loop_newlines)
  also have "\<dots> = splitRows_loop ?R (pushRow acc cur) ([] @ renderRow cells) False"
    using ok nq by (rule splitRows_loop_renderRow)
  also have "\<dots> = pushRow (pushRow acc cur) (renderRow cells) @ map (\<lambda>(sep, cells). renderRow cells) rs"
    using Cons.IH [OF rs] by simp
  finally show ?case
    using nb by (simp add: r pushRow_def)
qed

lemma splitRows_renderSheet:
  assumes "sheetOk header rows ending"
  shows "splitRows (renderSheet header rows ending) =
           renderRow header # map (\<lambda>(sep, cells). renderRow cells) rows"
proof -
  have h: "list_all cellOk header" "trim (renderRow header) \<noteq> []"
    and rows: "list_all (\<lambda>(sep, cells). sep \<noteq> [] \<and> newlines sep \<and> rowOk cells) rows"
    and ending: "newlines ending"
    using assms by (simp_all add: sheetOk_def rowOk_def)
  have nq: "\<not> startsWith (renderRows rows @ ending) QUOTE"
    using rows ending by (rule renderRows_start)
  have "splitRows (renderSheet header rows ending) =
        splitRows_loop (renderRows rows @ ending) [] ([] @ renderRow header) False"
    unfolding splitRows_def renderSheet_def using h(1) nq by (rule splitRows_loop_renderRow)
  also have "\<dots> = pushRow [] (renderRow header) @ map (\<lambda>(sep, cells). renderRow cells) rows"
    using splitRows_loop_renderRows [OF rows ending] by simp
  finally show ?thesis
    using h(2) by (simp add: pushRow_def)
qed


lemma set_dropWhile: "c \<in> set s \<Longrightarrow> \<not> P c \<Longrightarrow> c \<in> set (dropWhile P s)"
  by (induction s) auto

lemma set_trim: "c \<in> set s \<Longrightarrow> \<not> isWhiteSpace c \<Longrightarrow> c \<in> set (trim s)"
  by (simp add: trim_def set_dropWhile)

lemma not_ws_COMMA: "\<not> isWhiteSpace COMMA"
  by (simp add: isWhiteSpace_def COMMA_def)

lemma comma_not_blank:
  assumes "COMMA \<in> set v"
  shows "trim (cleanValue v) \<noteq> []"
proof -
  have t: "COMMA \<in> set (trim v)"
    using assms not_ws_COMMA by (rule set_trim)
  have "COMMA \<in> set (cleanValue v)"
  proof (cases "startsWith (trim v) QUOTE \<and> endsWith (trim v) QUOTE")
    case False
    then show ?thesis
      using t by (auto simp: cleanValue_def)
  next
    case True
    then obtain xs where x: "trim v = QUOTE # xs"
      by (cases "trim v") (auto simp: startsWith_def)
    have c: "COMMA \<in> set xs"
      using t x COMMA_neq_QUOTE by auto
    then have "xs \<noteq> []"
      by auto
    then obtain ys where y: "xs = ys @ [QUOTE]"
      using True x by (cases xs rule: rev_cases) (auto simp: endsWith_def)
    have "COMMA \<in> set ys"
      using c y COMMA_neq_QUOTE by auto
    then show ?thesis
      using True x y by (simp add: cleanValue_def slice_1_m1_def butlast_append)
  qed
  then show ?thesis
    using not_ws_COMMA by (auto simp: trim_eq_Nil_iff)
qed

lemma rowOk_nonempty: "rowOk cells \<Longrightarrow> cells \<noteq> []"
  by (auto simp: rowOk_def trim_def)

text \<open>
  Claim C2, as the code has it. In a sheet of quoted and plain cells, a field value \<open>v\<close>
  that is a quoted cell of a data row, in a kept column, comes back in the record of
  that row under the header of the column, whatever commas, newlines and quotes it
  contains, as \<open>cleanValue v\<close>: \<open>v\<close> with its surrounding whitespace trimmed and then one
  pair of surrounding double quotes removed, provided \<open>v\<close> contains a comma or
  \<open>cleanValue v\<close> is not blank (a record of blank values is dropped). It comes back
  as \<open>v\<close> itself when \<open>v\<close> has no leading or trailing whitespace and does not both start
  and end with a double quote.
\<close>

theorem quoted_field_value:
  assumes "sheetOk header rows ending"
    and "i < length rows" and "snd (rows ! i) = cells"
    and "j < length cells" and "cells ! j = Quoted v"
    and "headers = map (\<lambda>c. toLowerCase (cleanValue (cellValue c))) header"
    and "keptColumn headers j"
    and "COMMA \<in> set v \<or> trim (cleanValue v) \<noteq> []"
  shows "parseCSV toLowerCase (Str (renderSheet header rows ending)) =
           filter someNonBlank (map (\<lambda>(sep, cells). buildRecord headers (renderRow cells)) rows)
       \<and> buildRecord headers (renderRow cells) \<in> set (parseCSV toLowerCase (Str (renderSheet header rows ending)))
       \<and> map_of (buildRecord headers (renderRow cells)) (headers ! j) = Some (cleanValue v)
       \<and> (trim v = v \<and> \<not> (startsWith v QUOTE \<and> endsWith v QUOTE) \<longrightarrow>
            map_of (buildRecord headers (renderRow cells)) (headers ! j) = Some v)"
proof -
  let ?r = "buildRecord headers (renderRow cells)"
  let ?f = "\<lambda>(sep, cells). buildRecord headers (renderRow cells)"
  have hd_ok: "rowOk header"
    and rows_ok: "list_all (\<lambda>(sep, cells). sep \<noteq> [] \<and> newlines sep \<and> rowOk cells) rows"
    using assms(1) by (simp_all add: sheetOk_def)
  have split: "splitRows (renderSheet header rows ending) =
           renderRow header # map (\<lambda>(sep, cells). renderRow cells) rows"
    using assms(1) by (rule splitRows_renderSheet)
  have ne: "map (\<lambda>(sep, cells). renderRow cells) rows \<noteq> []"
    using assms(2) by auto
  have hs: "map toLowerCase (parseRow (renderRow header)) = headers"
    using hd_ok rowOk_nonempty [OF hd_ok] by (simp add: parseRow_renderRow rowOk_def assms(6))
  have all: "parseCSV toLowerCase (Str (renderSheet header rows ending)) = filter someNonBlank (map ?f rows)"
    using parseCSV_rows [OF split ne, of toLowerCase] by (simp add: hs comp_def case_prod_unfold)
  have mem: "rows ! i \<in> set rows"
    using assms(2) by simp
  then have "(\<lambda>(sep, cells). sep \<noteq> [] \<and> newlines sep \<and> rowOk cells) (rows ! i)"
    using rows_ok by (simp add: list_all_iff)
  then have row_ok: "rowOk cells"
    using assms(3) by (auto simp: case_prod_unfold)
  have val: "valueAt (parseRow (renderRow cells)) j = cleanValue v"
    using row_ok rowOk_nonempty [OF row_ok] assms(4,5)
    by (simp add: parseRow_renderRow rowOk_def valueAt_map)
  have "trim (cleanValue v) \<noteq> []"
    using assms(8) comma_not_blank by blast
  then have nb: "someNonBlank ?r"
    unfolding someNonBlank_buildRecord using assms(7) val by auto
  have fr: "?f (rows ! i) = ?r"
    using assms(3) by (simp add: case_prod_unfold)
  have "?f (rows ! i) \<in> ?f ` set rows"
    using mem by (rule imageI)
  then have "?r \<in> set (map ?f rows)"
    unfolding fr by simp
  then have in_result: "?r \<in> set (parseCSV toLowerCase (Str (renderSheet header rows ending)))"
    using nb by (simp add: all)
  have look: "map_of ?r (headers ! j) = Some (cleanValue v)"
    using lookup_buildRecord [OF assms(7), of "renderRow cells"] val by simp
  have plain: "trim v = v \<and> \<not> (startsWith v QUOTE \<and> endsWith v QUOTE) \<longrightarrow>
            map_of ?r (headers ! j) = Some v"
    using look cleanValue_plain [of v] by auto
  show ?thesis
    by (intro conjI) (rule all, rule in_result, rule look, rule plain)
qed

lemma said_hi_plain:
  "trim said_hi = said_hi" "\<not> (startsWith said_hi QUOTE \<and> endsWith said_hi QUOTE)" "said_hi \<noteq> []"
  by (simp_all add: said_hi_def trim_def isWhiteSpace_def js_def QUOTE_def COMMA_def LF_def startsWith_def)

lemma mixed_sheet_ok: "sheetOk mixed_header mixed_rows [LF]"
  by (simp add: sheetOk_def mixed_header_def mixed_rows_def rowOk_def newlines_def said_hi_def
      quoteField_def escapeQuotes_def trim_def isWhiteSpace_def js_def QUOTE_def COMMA_def LF_def CR_def)

lemma mixed_headers:
  "map (\<lambda>c. asciiLower (cleanValue (cellValue c))) mixed_header = [js ''id'', js ''quote'']"
  by (simp add: mixed_header_def asciiLower_def cleanValue_def trim_def isWhiteSpace_def js_def
      startsWith_def QUOTE_def)

lemma mixed_sheet_text:
  "renderSheet mixed_header mixed_rows [LF] =
     js ''id,Quote'' @ [LF] @ js ''7,'' @ [QUOTE] @ js ''He said '' @ [QUOTE, QUOTE] @ js ''hi''
       @ [QUOTE, QUOTE, COMMA, LF] @ js ''bye'' @ [QUOTE, CR, LF] @ js ''8,plain'' @ [LF]"
  by (simp add: renderSheet_def mixed_header_def mixed_rows_def said_hi_def quoteField_def escapeQuotes_def
      js_def QUOTE_def COMMA_def LF_def CR_def)

theorem quoted_field_value_witness:
  "\<exists>r \<in> set (parseCSV asciiLower (Str (renderSheet mixed_header mixed_rows [LF]))).
      map_of r (js ''quote'') = Some said_hi"
proof -
  have i: "(0::nat) < length mixed_rows" and c: "snd (mixed_rows ! 0) = [Plain (js ''7''), Quoted said_hi]"
    by (simp_all add: mixed_rows_def)
  have j: "(1::nat) < length [Plain (js ''7''), Quoted said_hi]"
    and v: "[Plain (js ''7''), Quoted said_hi] ! 1 = Quoted said_hi"
    by simp_all
  have k: "keptColumn [js ''id'', js ''quote''] 1"
    by (simp add: keptColumn_def js_def)
  have cv: "cleanValue said_hi = said_hi"
    using said_hi_plain(1,2) by (rule cleanValue_plain)
  have nb: "COMMA \<in> set said_hi \<or> trim (cleanValue said_hi) \<noteq> []"
    by (simp add: said_hi_def)
  from quoted_field_value [OF mixed_sheet_ok i c j v mixed_headers [symmetric] k nb]
  have "buildRecord [js ''id'', js ''quote''] (renderRow [Plain (js ''7''), Quoted said_hi])
          \<in> set (parseCSV asciiLower (Str (renderSheet mixed_header mixed_rows [LF])))"
    and "map_of (buildRecord [js ''id'', js ''quote''] (renderRow [Plain (js ''7''), Quoted said_hi]))
          ([js ''id'', js ''quote''] ! 1) = Some (cleanValue said_hi)"
    by blast+
  then show ?thesis
    by (auto simp: cv)
qed

text \<open>
  The claim as stated fails: the value \<open>He said "hi",\<close> followed by a newline contains
  a comma, a newline and quotes; properly quoted under the header \<open>h\<close> it comes back
  without its newline.
\<close>

theorem trailing_newline_lost_counterexample:
  "renderSheet [Quoted (js ''h'')] [([LF], [Quoted said_hi_newline])] [] = said_hi_newline_csv
   \<and> parseCSV asciiLower (Str said_hi_newline_csv) = [[(js ''h'', js ''He said '' @ [QUOTE] @ js ''hi'' @ [QUOTE, COMMA])]]
   \<and> js ''He said '' @ [QUOTE] @ js ''hi'' @ [QUOTE, COMMA] \<noteq> said_hi_newline"
  by (simp add: renderSheet_def said_hi_newline_csv_def said_hi_newline_def quoteField_def escapeQuotes_def parser_defs)


subsection \<open>What a record stores\<close>

lemma endsWith_last: "endsWith s c \<longleftrightarrow> s \<noteq> [] \<and> last s = c"
  by (cases s rule: rev_cases) (simp_all add: endsWith_def)

lemma quoted_shape:
  assumes "startsWith t QUOTE" and "endsWith t QUOTE"
  shows "t = [QUOTE] \<or> t = QUOTE # butlast (tl t) @ [QUOTE]"
proof (cases t)
  case Nil
  then show ?thesis using assms(1) by simp
next
  case (Cons x xs)
  then have x: "x = QUOTE" using assms(1) by simp
  show ?thesis
  proof (cases "xs = []")
    case True
    then show ?thesis using Cons x by simp
  next
    case False
    then have "last xs = QUOTE"
      using assms(2) Cons by (simp add: endsWith_last)
    then have "xs = butlast xs @ [QUOTE]"
      using False by (metis append_butlast_last_id)
    then show ?thesis using Cons x by simp
  qed
qed

lemma cleanValue_cases:
  "(\<not> (startsWith (trim d) QUOTE \<and> endsWith (trim d) QUOTE) \<longrightarrow>
      cleanValue d = trim d \<and> trim (cleanValue d) = cleanValue d)
   \<and> (startsWith (trim d) QUOTE \<and> endsWith (trim d) QUOTE \<longrightarrow>
        cleanValue d = butlast (tl (trim d))
        \<and> (trim d = [QUOTE] \<or> trim d = QUOTE # cleanValue d @ [QUOTE]))
   \<and> (trim d = QUOTE # m @ [QUOTE] \<longrightarrow> cleanValue d = m)
   \<and> (trim d = [QUOTE] \<longrightarrow> cleanValue d = [])"
proof -
  have 1: "\<not> (startsWith (trim d) QUOTE \<and> endsWith (trim d) QUOTE) \<Longrightarrow>
      cleanValue d = trim d \<and> trim (cleanValue d) = cleanValue d"
    by (auto simp: cleanValue_def trim_idem)
  have 2: "cleanValue d = butlast (tl (trim d))
        \<and> (trim d = [QUOTE] \<or> trim d = QUOTE # cleanValue d @ [QUOTE])"
    if "startsWith (trim d) QUOTE \<and> endsWith (trim d) QUOTE"
  proof -
    have c: "cleanValue d = butlast (tl (trim d))"
      using that by (simp add: cleanValue_def slice_1_m1_def)
    show ?thesis
      using quoted_shape [of "trim d"] that unfolding c by blast
  qed
  have 3: "trim d = QUOTE # m @ [QUOTE] \<Longrightarrow> cleanValue d = m"
    by (simp add: cleanValue_def endsWith_def slice_1_m1_def butlast_append)
  have 4: "trim d = [QUOTE] \<Longrightarrow> cleanValue d = []"
    by (simp add: cleanValue_def endsWith_def slice_1_m1_def)
  show ?thesis
    using 1 2 3 4 by blast
qed


lemma record_entries:
  assumes "splitRows text = header # dataRows" and "dataRows \<noteq> []"
    and "r \<in> set (parseCSV toLowerCase (Str text))" and "(k, v) \<in> set r"
  shows "k \<in> set (map (\<lambda>h. toLowerCase (cleanValue h)) (decodeRow header))
       \<and> (v = [] \<or> (\<exists>row \<in> set dataRows. \<exists>f \<in> set (decodeRow row). v = cleanValue f))"
proof -
  let ?headers = "map toLowerCase (parseRow header)"
  have "r \<in> set (map (buildRecord ?headers) dataRows)"
    using assms(3) parseCSV_rows [OF assms(1,2), of toLowerCase] by simp
  then obtain row where row: "row \<in> set dataRows" "r = buildRecord ?headers row"
    by auto
  obtain j where j: "keptColumn ?headers j" "?headers ! j = k" "v = valueAt (parseRow row) j"
    using entries_forEachHeader [of k v ?headers "parseRow row"] assms(4) row(2)
    by (auto simp: buildRecord_def)
  have "j < length ?headers"
    using j(1) by (simp add: keptColumn_def)
  then have "k \<in> set ?headers"
    using j(2) nth_mem by blast
  then have 1: "k \<in> set (map (\<lambda>h. toLowerCase (cleanValue h)) (decodeRow header))"
    by (simp add: parseRow_decodeRow comp_def)
  have 2: "v = [] \<or> (\<exists>f \<in> set (decodeRow row). v = cleanValue f)"
  proof (cases "j < length (parseRow row)")
    case True
    then have "v = cleanValue (decodeRow row ! j)" "j < length (decodeRow row)"
      using j(3) by (simp_all add: valueAt_def parseRow_decodeRow)
    then show ?thesis
      using nth_mem by blast
  next
    case False
    then show ?thesis
      using j(3) by (simp add: valueAt_def)
  qed
  show ?thesis
    using 1 2 row(1) by blast
qed

text \<open>
  Claim C9, as the code has it. Every value that \<open>parseRow\<close> returns is \<open>cleanValue\<close> of
  the decoded text of its field: the text trimmed, and then, when the trimmed text both
  starts and ends with a double quote, without its first and last code unit; that is
  the text between a pair of surrounding quotes, and the empty string when the trimmed
  text is a lone double quote. A value from which no quote was removed has no
  surrounding whitespace. In a record every key is a lower-cased cleaned header field,
  and every value is empty or a cleaned field of a data row. The text inside a removed
  pair of quotes is not cleaned again.
\<close>

theorem cleaned_field_values:
  "parseRow row = map cleanValue (decodeRow row)
   \<and> (\<not> (startsWith (trim d) QUOTE \<and> endsWith (trim d) QUOTE) \<longrightarrow>
        cleanValue d = trim d \<and> trim (cleanValue d) = cleanValue d)
   \<and> (startsWith (trim d) QUOTE \<and> endsWith (trim d) QUOTE \<longrightarrow>
        cleanValue d = butlast (tl (trim d))
        \<and> (trim d = [QUOTE] \<or> trim d = QUOTE # cleanValue d @ [QUOTE]))
   \<and> (trim d = QUOTE # m @ [QUOTE] \<longrightarrow> cleanValue d = m)
   \<and> (trim d = [QUOTE] \<longrightarrow> cleanValue d = [])
   \<and> (splitRows text = header # dataRows \<and> dataRows \<noteq> [] \<longrightarrow>
        (\<forall>r \<in> set (parseCSV toLowerCase (Str text)). \<forall>(k, v) \<in> set r.
            k \<in> set (map (\<lambda>h. toLowerCase (cleanValue h)) (decodeRow header))
          \<and> (v = [] \<or> (\<exists>row \<in> set dataRows. \<exists>f \<in> set (decodeRow row). v = cleanValue f))))"
proof -
  have rec: "splitRows text = header # dataRows \<and> dataRows \<noteq> [] \<longrightarrow>
        (\<forall>r \<in> set (parseCSV toLowerCase (Str text)). \<forall>(k, v) \<in> set r.
            k \<in> set (map (\<lambda>h. toLowerCase (cleanValue h)) (decodeRow header))
          \<and> (v = [] \<or> (\<exists>row \<in> set dataRows. \<exists>f \<in> set (decodeRow row). v = cleanValue f)))"
    using record_entries [of "text" header dataRows _ toLowerCase] by auto
  show ?thesis
    using cleanValue_cases [of d m] rec parseRow_decodeRow [of row] by blast
qed

lemma decodeRow_padded: "decodeRow padded_row = [js '' x '', js '' y '']"
  by (simp add: padded_row_def decodeRow_def js_def QUOTE_def COMMA_def startsWith_def)

lemma cleanValue_padded: "cleanValue (js '' x '') = js ''x''" "cleanValue (js '' y '') = js ''y''"
  by (simp_all add: cleanValue_def trim_def isWhiteSpace_def js_def startsWith_def QUOTE_def)

lemma trim_lone_quote: "trim lone_quote = [QUOTE]"
  by (simp add: lone_quote_def trim_def isWhiteSpace_def js_def QUOTE_def)

lemma trim_quoted_y: "trim quoted_y = QUOTE # js '' y '' @ [QUOTE]"
  by (simp add: quoted_y_def trim_def isWhiteSpace_def js_def QUOTE_def)

lemma trim_padded_x: "trim (js '' x '') = js ''x''"
  by (simp add: trim_def isWhiteSpace_def js_def)

lemma splitRows_new_csv: "splitRows new_csv = [js ''game_type,q'', js ''x,4'']"
  by (simp add: new_csv_def parser_defs trim_def isWhiteSpace_def startsWith_def pushRow_def)


lemma cleanValue_lone_quote: "cleanValue lone_quote = []"
  by (simp add: cleanValue_def trim_lone_quote startsWith_def endsWith_def slice_1_m1_def)

lemma cleanValue_quoted_y: "cleanValue quoted_y = js '' y ''"
  by (simp add: cleanValue_def trim_quoted_y startsWith_def endsWith_def slice_1_m1_def)

theorem cleaned_field_values_witness:
  "parseRow padded_row = [js ''x'', js ''y'']
   \<and> trim lone_quote = [QUOTE] \<and> cleanValue lone_quote = []
   \<and> trim quoted_y = QUOTE # js '' y '' @ [QUOTE] \<and> cleanValue quoted_y = js '' y ''
   \<and> trim (js '' x '') = js ''x'' \<and> cleanValue (js '' x '') = js ''x''
   \<and> splitRows new_csv = [js ''game_type,q'', js ''x,4'']
   \<and> parseCSV asciiLower (Str new_csv) = [[(js ''game_type'', js ''x''), (js ''q'', js ''4'')]]"
  using cleaned_field_values [of padded_row lone_quote "[]" new_csv "js ''game_type,q''" "[js ''x,4'']" asciiLower]
    cleaned_field_values [of padded_row quoted_y "js '' y ''" new_csv "js ''game_type,q''" "[js ''x,4'']" asciiLower]
    cleaned_field_values [of padded_row "js '' x ''" "[]" new_csv "js ''game_type,q''" "[js ''x,4'']" asciiLower]
  by (simp only: decodeRow_padded cleanValue_padded trim_lone_quote trim_quoted_y trim_padded_x
      splitRows_new_csv parse_new_csv cleanValue_lone_quote cleanValue_quoted_y list.map simp_thms)

text \<open>
  The claim as stated fails: the quoted fields \<open>""" a """\<close> and \<open>"""""x"""""\<close> decode to
  \<open>" a "\<close> and \<open>""x""\<close>; one pair of quotes is removed, and the record keeps a value with
  surrounding whitespace and a value with a surrounding pair of quotes.
\<close>

theorem nested_quotes_kept_counterexample:
  "parseCSV asciiLower (Str nested_csv) = [[(js ''h'', js '' a ''), (js ''k'', [QUOTE] @ js ''x'' @ [QUOTE])]]
   \<and> trim (js '' a '') \<noteq> js '' a ''
   \<and> startsWith ([QUOTE] @ js ''x'' @ [QUOTE]) QUOTE
   \<and> endsWith ([QUOTE] @ js ''x'' @ [QUOTE]) QUOTE"
  by (simp add: nested_csv_def parser_defs)

section \<open>The parser: degradation to the empty result\<close>

lemma physicalLines_nonempty: "physicalLines q src \<noteq> []"
  by (induction q src rule: physicalLines.induct) (auto split: list.split)

lemma pushRow_conv: "pushRow rows cur = rows @ filter (\<lambda>l. trim l \<noteq> []) [cur]"
  by (simp add: pushRow_def)

lemma splitRows_loop_physicalLines:
  "physicalLines q src = l # ls \<Longrightarrow>
   splitRows_loop src rows cur q = rows @ filter (\<lambda>l. trim l \<noteq> []) ((cur @ l) # ls)"
proof (induction src arbitrary: q l ls rows cur rule: length_induct)
  case (1 src)
  note IH = 1(1) [rule_format]
  show ?case
  proof (cases src)
    case Nil
    then show ?thesis using 1(2) by (simp add: pushRow_def)
  next
    case (Cons c rest)
    show ?thesis
    proof (cases "(c = LF \<or> c = CR) \<and> \<not> q")
      case True
      then have cq: "c \<noteq> QUOTE" "\<not> q"
        using COMMA_neq_QUOTE by auto
      let ?rest' = "if c = CR \<and> startsWith rest LF then tl rest else rest"
      have len: "length ?rest' < length src"
        using Cons by (cases rest) auto
      have pl: "physicalLines q src = [] # physicalLines q ?rest'"
        using True Cons by simp
      then have l: "l = []" and ls: "ls = physicalLines q ?rest'"
        using 1(2) by simp_all
      obtain l' ls' where p': "physicalLines q ?rest' = l' # ls'"
        using physicalLines_nonempty by (cases "physicalLines q ?rest'") auto
      have "splitRows_loop src rows cur q = splitRows_loop ?rest' (pushRow rows cur) [] q"
        using True Cons cq by simp
      also have "\<dots> = pushRow rows cur @ filter (\<lambda>l. trim l \<noteq> []) (([] @ l') # ls')"
        using IH [OF len p'] .
      finally show ?thesis
        by (simp add: l ls p' pushRow_def)
    next
      case False
      let ?q' = "if c = QUOTE then \<not> q else q"
      obtain l1 ls1 where p1: "physicalLines ?q' rest = l1 # ls1"
        using physicalLines_nonempty by (cases "physicalLines ?q' rest") auto
      have pl: "physicalLines q src = (c # l1) # ls1"
        using False Cons p1 by auto
      then have l: "l = c # l1" and ls: "ls = ls1"
        using 1(2) by simp_all
      show ?thesis
      proof (cases "c = QUOTE \<and> q \<and> startsWith rest QUOTE")
        case True
        then obtain rest' where rest: "rest = QUOTE # rest'"
          by (cases rest) auto
        have "physicalLines (\<not> q) rest = l1 # ls1"
          using p1 True by simp
        then obtain l2 ls2 where p2: "physicalLines q rest' = l2 # ls2" and l1: "l1 = QUOTE # l2" "ls1 = ls2"
          using True rest COMMA_neq_QUOTE physicalLines_nonempty [of q rest']
          by (cases "physicalLines True rest'") auto
        have len: "length rest' < length src"
          using Cons rest by simp
        have "splitRows_loop src rows cur q = splitRows_loop rest' rows (cur @ [QUOTE, QUOTE]) q"
          using True Cons rest by simp
        also have "\<dots> = rows @ filter (\<lambda>l. trim l \<noteq> []) (((cur @ [QUOTE, QUOTE]) @ l2) # ls2)"
          using IH [OF len p2] .
        finally show ?thesis
          using True by (simp add: l ls l1)
      next
        case F2: False
        have len: "length rest < length src"
          using Cons by simp
        have "splitRows_loop src rows cur q = splitRows_loop rest rows (cur @ [c]) ?q'"
          using False F2 Cons by auto
        also have "\<dots> = rows @ filter (\<lambda>l. trim l \<noteq> []) (((cur @ [c]) @ l1) # ls1)"
          using IH [OF len p1] .
        finally show ?thesis
          by (simp add: l ls)
      qed
    qed
  qed
qed

lemma splitRows_retainedLines: "splitRows text = retainedLines text"
proof -
  obtain l ls where p: "physicalLines False text = l # ls"
    using physicalLines_nonempty by (cases "physicalLines False text") auto
  show ?thesis
    using splitRows_loop_physicalLines [OF p, of "[]" "[]"] p
    by (simp add: splitRows_def retainedLines_def)
qed

text \<open>
  Claim C7. \<open>parseCSV\<close> returns the empty list for a value that is not a string, for the
  empty string, and for a text with fewer than two retained lines. Whatever the \<open>try\<close>
  block throws is caught and gives the empty list, so nothing is thrown to the caller;
  the block as written throws on no text.
\<close>

theorem parseCSV_degrades_to_empty:
  "parseCSV toLowerCase NonString = []
   \<and> parseCSV toLowerCase (Str []) = []
   \<and> (length (retainedLines text) < 2 \<longrightarrow> parseCSV toLowerCase (Str text) = [])
   \<and> parseCSV_catch block NonString = []
   \<and> parseCSV_catch block (Str []) = []
   \<and> (block text = Inl e \<longrightarrow> parseCSV_catch block (Str text) = [])
   \<and> (\<exists>records. parseCSV_block toLowerCase text = Inr records)"
  by (simp add: parseCSV_def parseCSV_catch_def parseCSV_block_def splitRows_retainedLines Let_def)

lemma retainedLines_header_only: "retainedLines header_only_csv = [js ''a,b'']"
  by (simp add: retainedLines_def header_only_csv_def js_def LF_def CR_def QUOTE_def trim_def
      isWhiteSpace_def startsWith_def)

theorem parseCSV_degrades_to_empty_witness:
  "retainedLines header_only_csv = [js ''a,b'']
   \<and> parseCSV asciiLower (Str header_only_csv) = []
   \<and> parseCSV_catch faulty_block (Str quiz_csv) = []"
  using parseCSV_degrades_to_empty [of asciiLower header_only_csv]
    parseCSV_degrades_to_empty [of asciiLower quiz_csv faulty_block "Error (js ''RangeError'')"]
  by (simp add: retainedLines_header_only faulty_block_def)


end
